theory Spec2Isabelle
  imports Complex_Main
begin

section \<open>Data model\<close>

text \<open>
  The evaluation code of the repository (\<^verbatim>\<open>src/eval/metrics.py\<close>,
  \<^verbatim>\<open>src/train/run_cv.py\<close>) works on numpy arrays of floats. The embedding
  reads a float as a real number: rounding is not modelled, so every equation below is an
  equation of exact arithmetic. What numpy and scikit-learn raise is a value of
  \<open>error\<close>; a NaN result (the mean of an empty array) is the error \<open>NotANumber\<close>.
\<close>

datatype error = ValueError | IndexError | NotANumber

text \<open>
  A two-dimensional array: its column count and its rows. The column count is kept
  apart from the rows because numpy knows it for an array without rows as well.
\<close>

record ndarray =
  ncols :: nat
  rows :: "real list list"

definition is_ndarray :: "ndarray \<Rightarrow> bool" where
  "is_ndarray P = list_all (\<lambda>r. length r = ncols P) (rows P)"

text \<open>\<^verbatim>\<open>probas.shape == (len(y_true), len(classes))\<close>\<close>

definition has_shape :: "ndarray \<Rightarrow> nat \<Rightarrow> nat \<Rightarrow> bool" where
  "has_shape P n k = (is_ndarray P \<and> length (rows P) = n \<and> ncols P = k)"

section \<open>numpy reductions along a row\<close>

text \<open>
  \<^verbatim>\<open>argmax\<close> scans a row from the left and keeps the index of the first
  entry that is strictly greater than every entry before it.
\<close>

fun argmax_scan :: "nat \<Rightarrow> real \<Rightarrow> nat \<Rightarrow> real list \<Rightarrow> nat" where
  "argmax_scan bi bv i [] = bi"
| "argmax_scan bi bv i (x # xs) =
     (if bv < x then argmax_scan i x (Suc i) xs else argmax_scan bi bv (Suc i) xs)"

fun row_argmax :: "real list \<Rightarrow> nat" where
  "row_argmax [] = 0"
| "row_argmax (x # xs) = argmax_scan 0 x 1 xs"

fun row_max :: "real list \<Rightarrow> real" where
  "row_max [] = 0"
| "row_max (x # xs) = fold max xs x"

text \<open>
  \<^verbatim>\<open>probas.max(axis=1)\<close> and \<^verbatim>\<open>probas.argmax(axis=1)\<close>: numpy
  raises ValueError when the reduced axis has length 0, also for an array without rows.
  With \<open>ncols P > 0\<close> every row of an array is non-empty, so the equations of
  \<open>row_max\<close> and \<open>row_argmax\<close> for the empty row are never used on an array.
\<close>

definition amax_axis1 :: "ndarray \<Rightarrow> error + real list" where
  "amax_axis1 P = (if ncols P = 0 then Inl ValueError else Inr (map row_max (rows P)))"

definition argmax_axis1 :: "ndarray \<Rightarrow> error + nat list" where
  "argmax_axis1 P = (if ncols P = 0 then Inl ValueError else Inr (map row_argmax (rows P)))"

text \<open>
  Indexing an array by an array of indices, \<^verbatim>\<open>np.array(classes)[predictions]\<close>:
  IndexError on an index out of range.
\<close>

definition take_indices :: "'a list \<Rightarrow> nat list \<Rightarrow> error + 'a list" where
  "take_indices a idx =
     (if list_all (\<lambda>j. j < length a) idx
      then Inr (map (\<lambda>j. a ! j) idx) else Inl IndexError)"

text \<open>The first line of \<^verbatim>\<open>evaluate\<close>: the predicted labels.\<close>

definition predicted_labels :: "ndarray \<Rightarrow> 'a list \<Rightarrow> error + 'a list" where
  "predicted_labels P classes =
     (case argmax_axis1 P of Inl e \<Rightarrow> Inl e | Inr predictions \<Rightarrow> take_indices classes predictions)"


section \<open>Multiclass Brier score\<close>

text \<open>\<^verbatim>\<open>np.mean\<close> of a one-dimensional array; NaN on the empty array.\<close>

definition np_mean :: "real list \<Rightarrow> error + real" where
  "np_mean xs = (if xs = [] then Inl NotANumber else Inr (sum_list xs / real (length xs)))"

text \<open>\<^verbatim>\<open>probas[:, i]\<close>\<close>

definition column :: "ndarray \<Rightarrow> nat \<Rightarrow> error + real list" where
  "column P i = (if i < ncols P then Inr (map (\<lambda>r. r ! i) (rows P)) else Inl IndexError)"

text \<open>\<^verbatim>\<open>(y_true == c).astype(int)\<close>\<close>

definition binarize :: "'a list \<Rightarrow> 'a \<Rightarrow> nat list" where
  "binarize y_true c = map (\<lambda>t. if t = c then 1 else 0) y_true"

text \<open>
  \<^verbatim>\<open>sklearn.metrics.brier_score_loss\<close> on a 0/1 indicator and a column of
  probabilities. It is library code: it rejects arrays of different lengths, empty
  arrays and probabilities outside \<open>[0, 1]\<close> with ValueError, and otherwise returns
  the mean of the squared differences.
\<close>

definition brier_score_loss :: "nat list \<Rightarrow> real list \<Rightarrow> error + real" where
  "brier_score_loss y_bin y_prob =
     (if length y_bin \<noteq> length y_prob \<or> y_prob = [] \<or> list_ex (\<lambda>p. p < 0 \<or> 1 < p) y_prob
      then Inl ValueError
      else Inr (sum_list (map2 (\<lambda>y p. (real y - p)\<^sup>2) y_bin y_prob) / real (length y_prob)))"

text \<open>The loop of \<^verbatim>\<open>multiclass_brier\<close> over \<^verbatim>\<open>enumerate(classes)\<close>.\<close>

fun brier_scores :: "'a list \<Rightarrow> ndarray \<Rightarrow> (nat \<times> 'a) list \<Rightarrow> error + real list" where
  "brier_scores y_true P [] = Inr []"
| "brier_scores y_true P ((i, c) # ics) =
     (case column P i of Inl e \<Rightarrow> Inl e | Inr col \<Rightarrow>
      (case brier_score_loss (binarize y_true c) col of Inl e \<Rightarrow> Inl e | Inr s \<Rightarrow>
       (case brier_scores y_true P ics of Inl e \<Rightarrow> Inl e | Inr ss \<Rightarrow> Inr (s # ss))))"

definition multiclass_brier :: "'a list \<Rightarrow> ndarray \<Rightarrow> 'a list \<Rightarrow> error + real" where
  "multiclass_brier y_true P classes =
     (case brier_scores y_true P (enumerate 0 classes) of Inl e \<Rightarrow> Inl e | Inr scores \<Rightarrow> np_mean scores)"

text \<open>
  The Brier score in the words of the specification: the mean over the classes of the
  mean squared error between the indicator of the class and its column.
\<close>

definition indicator_of :: "'a list \<Rightarrow> 'a list \<Rightarrow> nat \<Rightarrow> nat \<Rightarrow> real" where
  "indicator_of y_true classes r c = (if y_true ! r = classes ! c then 1 else 0)"

definition class_mse :: "'a list \<Rightarrow> ndarray \<Rightarrow> 'a list \<Rightarrow> nat \<Rightarrow> real" where
  "class_mse y_true P classes c =
     (\<Sum>r<length y_true. (indicator_of y_true classes r c - rows P ! r ! c)\<^sup>2) / real (length y_true)"

definition brier_spec :: "'a list \<Rightarrow> ndarray \<Rightarrow> 'a list \<Rightarrow> real" where
  "brier_spec y_true P classes =
     (\<Sum>c<length classes. class_mse y_true P classes c) / real (length classes)"

text \<open>One pass of the loop in closed form: the mean squared error of column \<open>j\<close> against the indicator of label \<open>c\<close>.\<close>

definition col_mse :: "'a list \<Rightarrow> ndarray \<Rightarrow> nat \<Rightarrow> 'a \<Rightarrow> real" where
  "col_mse y_true P j c =
     (\<Sum>r<length y_true. ((if y_true ! r = c then 1 else 0) - rows P ! r ! j)\<^sup>2) / real (length y_true)"

text \<open>A probability matrix: entries non-negative, every row sums to 1.\<close>

definition nonneg_entries :: "ndarray \<Rightarrow> bool" where
  "nonneg_entries P = list_all (list_all (\<lambda>p. 0 \<le> p)) (rows P)"

definition rows_sum_to_one :: "ndarray \<Rightarrow> bool" where
  "rows_sum_to_one P = list_all (\<lambda>r. sum_list r = 1) (rows P)"

text \<open>The one-hot vector of length \<open>k\<close> with its 1 in column \<open>j\<close>.\<close>

definition one_hot :: "nat \<Rightarrow> nat \<Rightarrow> real list" where
  "one_hot k j = map (\<lambda>i. if i = j then 1 else 0) [0..<k]"

definition one_hot_on_label :: "'a list \<Rightarrow> 'a \<Rightarrow> real list \<Rightarrow> bool" where
  "one_hot_on_label classes t r =
     list_ex (\<lambda>j. classes ! j = t \<and> r = one_hot (length classes) j) [0..<length classes]"

section \<open>Expected calibration error\<close>

text \<open>
  \<^verbatim>\<open>classes_np[predictions] == y_true\<close>, the elementwise comparison of two
  arrays. Arrays of different lengths are reported as ValueError (numpy would first try
  to broadcast an array of length 1 against the other).
\<close>

definition elementwise_eq :: "'a list \<Rightarrow> 'a list \<Rightarrow> error + bool list" where
  "elementwise_eq xs ys =
     (if length xs = length ys then Inr (map2 (\<lambda>x y. x = y) xs ys) else Inl ValueError)"

text \<open>
  \<^verbatim>\<open>np.linspace(0.0, 1.0, num)\<close>: \<open>num\<close> evenly spaced points from 0 to 1,
  the single point 0 for \<open>num = 1\<close>.
\<close>

definition linspace01 :: "nat \<Rightarrow> real list" where
  "linspace01 num =
     (if num \<le> 1 then replicate num 0 else map (\<lambda>i. real i / real (num - 1)) [0..<num])"

text \<open>\<^verbatim>\<open>(confidences > lo) & (confidences <= hi)\<close>\<close>

definition bin_mask :: "real \<Rightarrow> real \<Rightarrow> real list \<Rightarrow> bool list" where
  "bin_mask lo hi confidences = map (\<lambda>c. lo < c \<and> c \<le> hi) confidences"

text \<open>\<^verbatim>\<open>a[mask]\<close> for a boolean mask of the length of \<open>a\<close>.\<close>

definition select :: "'a list \<Rightarrow> bool list \<Rightarrow> 'a list" where
  "select a msk = map fst (filter snd (zip a msk))"

text \<open>The mean of a boolean array (True counts 1) and of a float array, both non-empty where they are used.\<close>

definition mean_bool :: "bool list \<Rightarrow> real" where
  "mean_bool bs = real (length (filter id bs)) / real (length bs)"

definition mean_real :: "real list \<Rightarrow> real" where
  "mean_real xs = sum_list xs / real (length xs)"

text \<open>One pass of the loop over the bins; \<open>ece\<close> is the running sum.\<close>

definition ece_bin :: "real list \<Rightarrow> bool list \<Rightarrow> real list \<Rightarrow> nat \<Rightarrow> real \<Rightarrow> real" where
  "ece_bin confidences correct bin_bounds i ece =
     (let lo = bin_bounds ! i; hi = bin_bounds ! (i + 1);
          msk = bin_mask lo hi confidences
      in if \<not> list_ex id msk then ece
         else let acc = mean_bool (select correct msk);
                  conf = mean_real (select confidences msk)
              in ece + mean_bool msk * \<bar>acc - conf\<bar>)"

fun ece_loop :: "real list \<Rightarrow> bool list \<Rightarrow> real list \<Rightarrow> nat list \<Rightarrow> real \<Rightarrow> real" where
  "ece_loop confidences correct bin_bounds [] ece = ece"
| "ece_loop confidences correct bin_bounds (i # js) ece =
     ece_loop confidences correct bin_bounds js (ece_bin confidences correct bin_bounds i ece)"

text \<open>
  \<^verbatim>\<open>expected_calibration_error(y_true, probas, classes, bins)\<close>. A negative number
  of points is a ValueError of \<^verbatim>\<open>np.linspace\<close>; \<^verbatim>\<open>range(bins)\<close> is empty for
  \<open>bins \<le> 0\<close>.
\<close>

definition expected_calibration_error :: "'a list \<Rightarrow> ndarray \<Rightarrow> 'a list \<Rightarrow> int \<Rightarrow> error + real" where
  "expected_calibration_error y_true P classes bins =
     (case amax_axis1 P of Inl e \<Rightarrow> Inl e | Inr confidences \<Rightarrow>
      (case predicted_labels P classes of Inl e \<Rightarrow> Inl e | Inr labels \<Rightarrow>
       (case elementwise_eq labels y_true of Inl e \<Rightarrow> Inl e | Inr correct \<Rightarrow>
        (if bins + 1 < 0 then Inl ValueError
         else Inr (ece_loop confidences correct (linspace01 (nat (bins + 1))) [0..<nat bins] 0)))))"

text \<open>
  The calibration error in the words of the specification: bin \<open>i\<close> of \<open>B\<close> holds the
  samples whose confidence lies in \<open>(i/B, (i+1)/B]\<close>; an empty bin contributes 0, a
  non-empty one the gap between its mean correctness and its mean confidence, weighted
  by its share of the samples.
\<close>

definition confidence :: "ndarray \<Rightarrow> nat \<Rightarrow> real" where
  "confidence P r = row_max (rows P ! r)"

definition is_correct :: "'a list \<Rightarrow> ndarray \<Rightarrow> 'a list \<Rightarrow> nat \<Rightarrow> bool" where
  "is_correct y_true P classes r = (classes ! row_argmax (rows P ! r) = y_true ! r)"

definition bin_members :: "ndarray \<Rightarrow> nat \<Rightarrow> nat \<Rightarrow> nat set" where
  "bin_members P B i =
     {r. r < length (rows P) \<and> real i / real B < confidence P r \<and> confidence P r \<le> real (i + 1) / real B}"

definition bin_contribution :: "'a list \<Rightarrow> ndarray \<Rightarrow> 'a list \<Rightarrow> nat \<Rightarrow> nat \<Rightarrow> real" where
  "bin_contribution y_true P classes B i =
     (let M = bin_members P B i in
      if M = {} then 0
      else (real (card M) / real (length (rows P))) *
           \<bar>real (card {r \<in> M. is_correct y_true P classes r}) / real (card M)
             - (\<Sum>r\<in>M. confidence P r) / real (card M)\<bar>)"

definition ece_spec :: "'a list \<Rightarrow> ndarray \<Rightarrow> 'a list \<Rightarrow> nat \<Rightarrow> real" where
  "ece_spec y_true P classes B = (\<Sum>i<B. bin_contribution y_true P classes B i)"

section \<open>Bootstrap confidence interval\<close>

text \<open>
  numpy's random generator is library code and a parameter of the model: \<open>default_rng\<close>
  makes the state of a generator from a seed, and \<open>next_below\<close> yields from a state and a
  bound a raw number and the next state. The index that the generator draws below the
  bound is the raw number reduced below the bound, so every way of drawing an index in
  range is an instance.
\<close>

record 'g generator =
  default_rng :: "nat \<Rightarrow> 'g"
  next_below :: "'g \<Rightarrow> nat \<Rightarrow> nat \<times> 'g"

text \<open>\<^verbatim>\<open>rng.integers(0, n, size=k)\<close>\<close>

fun draw :: "'g generator \<Rightarrow> 'g \<Rightarrow> nat \<Rightarrow> nat \<Rightarrow> nat list \<times> 'g" where
  "draw G g n 0 = ([], g)"
| "draw G g n (Suc k) =
     (case next_below G g n of (x, g') \<Rightarrow>
      (case draw G g' n k of (xs, g'') \<Rightarrow> (x mod n # xs, g'')))"

text \<open>
  \<^verbatim>\<open>rng.choice(values, size=len(values), replace=True)\<close>: as many indices as there
  are values, drawn with replacement; of an empty array, the empty sample.
\<close>

definition choice :: "'g generator \<Rightarrow> 'g \<Rightarrow> real list \<Rightarrow> real list \<times> 'g" where
  "choice G g vals =
     (if vals = [] then ([], g)
      else (case draw G g (length vals) (length vals) of (idx, g') \<Rightarrow> (map (\<lambda>j. vals ! j) idx, g')))"

text \<open>
  The loop of \<^verbatim>\<open>bootstrap_ci\<close>: \<open>k\<close> resamples and their means. The mean of an
  empty sample is NaN, kept as an entry of the list as numpy keeps it in the array.
  numpy rounds the sum and the quotient of a mean to float64, which the exact mean of
  the model does not: the float mean of three copies of 0.1 is 0.10000000000000002. So
  of the mean of a constant sample the claims below use only that it is the same for
  every resample; the mean of a single value is that value in both readings.
\<close>

fun boot_loop :: "'g generator \<Rightarrow> 'g \<Rightarrow> real list \<Rightarrow> nat \<Rightarrow> (error + real) list" where
  "boot_loop G g vals 0 = []"
| "boot_loop G g vals (Suc k) =
     (case choice G g vals of (smp, g') \<Rightarrow> np_mean smp # boot_loop G g' vals k)"

text \<open>
  \<^verbatim>\<open>np.percentile\<close> with its default, linear interpolation: on the sorted array of
  length \<open>n\<close> the value at the virtual index \<open>(n - 1) * q / 100\<close>, interpolated between
  its two neighbours.
\<close>

definition linear_quantile :: "real list \<Rightarrow> real \<Rightarrow> real" where
  "linear_quantile a p =
     (let h = (real (length a) - 1) * p;
          i = nat \<lfloor>h\<rfloor>;
          j = min (i + 1) (length a - 1)
      in a ! i + (a ! j - a ! i) * (h - real i))"

definition np_percentile :: "(error + real) list \<Rightarrow> real \<Rightarrow> error + real" where
  "np_percentile a q =
     (if q < 0 \<or> 100 < q then Inl ValueError
      else if a = [] \<or> list_ex isl a then Inl NotANumber
      else Inr (linear_quantile (sort (map projr a)) (q / 100)))"

text \<open>
  What a random source can draw from besides its seed: the entropy of the operating
  system, a stream of fresh seeds of which \<open>entropy_used\<close> have been taken.
  \<^verbatim>\<open>np.random.default_rng(seed)\<close> takes the next fresh seed from it when \<open>seed\<close> is
  \<^verbatim>\<open>None\<close>, and leaves it alone when \<open>seed\<close> is an integer, which must not be negative.
\<close>

record world =
  os_entropy :: "nat \<Rightarrow> nat"
  entropy_used :: nat

definition np_random_default_rng ::
  "'g generator \<Rightarrow> world \<Rightarrow> int option \<Rightarrow> (error + 'g) \<times> world" where
  "np_random_default_rng G w seed =
     (case seed of
        None \<Rightarrow> (Inr (default_rng G (os_entropy w (entropy_used w))),
                 w\<lparr>entropy_used := Suc (entropy_used w)\<rparr>)
      | Some s \<Rightarrow> (if s < 0 then (Inl ValueError, w) else (Inr (default_rng G (nat s)), w)))"

text \<open>
  \<^verbatim>\<open>bootstrap_ci(values, n_boot, alpha, seed)\<close>, run in a world and returning the
  world it leaves. \<^verbatim>\<open>range(n_boot)\<close> is empty for \<open>n_boot \<le> 0\<close>.
\<close>

definition bootstrap_ci ::
  "'g generator \<Rightarrow> world \<Rightarrow> real list \<Rightarrow> int \<Rightarrow> real \<Rightarrow> int \<Rightarrow> (error + real \<times> real) \<times> world" where
  "bootstrap_ci G w vals n_boot alpha seed =
     (case np_random_default_rng G w (Some seed) of
        (Inl e, w') \<Rightarrow> (Inl e, w')
      | (Inr rng, w') \<Rightarrow>
          let boots = boot_loop G rng vals (nat n_boot)
          in (case np_percentile boots (100 * (alpha / 2)) of
                Inl e \<Rightarrow> (Inl e, w')
              | Inr lo \<Rightarrow>
                 (case np_percentile boots (100 * (1 - alpha / 2)) of
                    Inl e \<Rightarrow> (Inl e, w')
                  | Inr hi \<Rightarrow> (Inr (lo, hi), w'))))"

text \<open>
  The interval in the words of the specification, from the seed alone. The generator
  made from the seed yields one stream of indices below \<open>n = len(values)\<close>; resample
  \<open>b\<close> is the values at the positions \<open>b * n, \<dots>, b * n + n - 1\<close> of the stream; the
  interval is the pair of percentiles of the means of the first \<open>n_boot\<close> resamples.
\<close>

definition stream_state :: "'g generator \<Rightarrow> nat \<Rightarrow> 'g \<Rightarrow> nat \<Rightarrow> 'g" where
  "stream_state G n g k = ((\<lambda>g. snd (next_below G g n)) ^^ k) g"

definition stream_index :: "'g generator \<Rightarrow> nat \<Rightarrow> 'g \<Rightarrow> nat \<Rightarrow> nat" where
  "stream_index G n g k = fst (next_below G (stream_state G n g k) n) mod n"

definition resample :: "'g generator \<Rightarrow> nat \<Rightarrow> real list \<Rightarrow> nat \<Rightarrow> real list" where
  "resample G seed vals b =
     map (\<lambda>j. vals ! stream_index G (length vals) (default_rng G seed) (b * length vals + j))
         [0..<length vals]"

definition seeded_boots :: "'g generator \<Rightarrow> nat \<Rightarrow> real list \<Rightarrow> nat \<Rightarrow> (error + real) list" where
  "seeded_boots G seed vals n_boot = map (\<lambda>b. np_mean (resample G seed vals b)) [0..<n_boot]"

definition percentile_interval :: "(error + real) list \<Rightarrow> real \<Rightarrow> error + real \<times> real" where
  "percentile_interval boots alpha =
     (case np_percentile boots (100 * (alpha / 2)) of
        Inl e \<Rightarrow> Inl e
      | Inr lo \<Rightarrow>
         (case np_percentile boots (100 * (1 - alpha / 2)) of
            Inl e \<Rightarrow> Inl e
          | Inr hi \<Rightarrow> Inr (lo, hi)))"

definition bootstrap_ci_spec :: "'g generator \<Rightarrow> real list \<Rightarrow> int \<Rightarrow> real \<Rightarrow> int \<Rightarrow> error + real \<times> real" where
  "bootstrap_ci_spec G vals n_boot alpha seed =
     (if seed < 0 then Inl ValueError
      else percentile_interval (seeded_boots G (nat seed) vals (nat n_boot)) alpha)"

text \<open>A generator to run the model on: the state counts the draws, and the raw number is half the count.\<close>

definition counting_generator :: "nat generator" where
  "counting_generator = \<lparr>default_rng = (\<lambda>seed. seed), next_below = (\<lambda>g n. (g div 2, Suc g))\<rparr>"

text \<open>A world to run the model in: the operating system hands out the seeds 0, 1, 2, \<dots>\<close>

definition counting_world :: world where
  "counting_world = \<lparr>os_entropy = (\<lambda>k. k), entropy_used = 0\<rparr>"

section \<open>The evaluation of one fold\<close>

text \<open>
  \<^verbatim>\<open>sklearn.metrics.classification_report(y_true, preds, output_dict=True)\<close>, called
  without \<^verbatim>\<open>labels\<close>: the report has one entry for every label that occurs in
  \<open>y_true\<close> or in \<open>preds\<close> (scikit-learn sorts them; the order of the keys of the
  dictionary is not modelled), the accuracy, and the macro and weighted averages over
  these labels. A ratio with denominator 0 is reported as 0, with a warning.
\<close>

record class_metrics =
  precision :: real
  recall :: real
  f1_score :: real
  support :: nat

record 'a classification_report =
  per_class :: "'a \<rightharpoonup> class_metrics"
  accuracy :: real
  macro_avg :: class_metrics
  weighted_avg :: class_metrics

definition zero_division :: "real \<Rightarrow> real \<Rightarrow> real" where
  "zero_division a b = (if b = 0 then 0 else a / b)"

definition true_positives :: "'a list \<Rightarrow> 'a list \<Rightarrow> 'a \<Rightarrow> nat" where
  "true_positives y_true y_pred l = length (filter (\<lambda>(t, p). t = l \<and> p = l) (zip y_true y_pred))"

definition metrics_of :: "'a list \<Rightarrow> 'a list \<Rightarrow> 'a \<Rightarrow> class_metrics" where
  "metrics_of y_true y_pred l =
     (let tp = real (true_positives y_true y_pred l);
          p = zero_division tp (real (count_list y_pred l));
          r = zero_division tp (real (count_list y_true l))
      in \<lparr>precision = p, recall = r, f1_score = zero_division (2 * p * r) (p + r),
          support = count_list y_true l\<rparr>)"

definition present_labels :: "'a list \<Rightarrow> 'a list \<Rightarrow> 'a list" where
  "present_labels y_true y_pred = remdups (y_true @ y_pred)"

definition macro_average :: "class_metrics list \<Rightarrow> class_metrics" where
  "macro_average ms =
     \<lparr>precision = sum_list (map precision ms) / real (length ms),
      recall = sum_list (map recall ms) / real (length ms),
      f1_score = sum_list (map f1_score ms) / real (length ms),
      support = sum_list (map support ms)\<rparr>"

definition weighted_average :: "class_metrics list \<Rightarrow> class_metrics" where
  "weighted_average ms =
     (let n = real (sum_list (map support ms)) in
      \<lparr>precision = sum_list (map (\<lambda>m. real (support m) * precision m) ms) / n,
       recall = sum_list (map (\<lambda>m. real (support m) * recall m) ms) / n,
       f1_score = sum_list (map (\<lambda>m. real (support m) * f1_score m) ms) / n,
       support = sum_list (map support ms)\<rparr>)"

text \<open>
  Arrays of different lengths are a ValueError. For empty arrays scikit-learn returns a
  report whose macro average is NaN, which a record of reals cannot hold: the model
  rejects them. \<^verbatim>\<open>evaluate\<close> fails on empty arrays with the same ValueError in any
  case, in \<^verbatim>\<open>multiclass_brier\<close> at the latest.
\<close>

definition classification_report :: "'a list \<Rightarrow> 'a list \<Rightarrow> error + 'a classification_report" where
  "classification_report y_true y_pred =
     (if length y_true \<noteq> length y_pred \<or> y_true = [] then Inl ValueError
      else
        let labels = present_labels y_true y_pred;
            ms = map (metrics_of y_true y_pred) labels
        in Inr \<lparr>per_class = (\<lambda>l. if l \<in> set labels then Some (metrics_of y_true y_pred l) else None),
                accuracy = real (length (filter (\<lambda>(t, p). t = p) (zip y_true y_pred))) / real (length y_true),
                macro_avg = macro_average ms,
                weighted_avg = weighted_average ms\<rparr>)"

text \<open>
  \<^verbatim>\<open>sklearn.metrics.confusion_matrix(y_true, preds, labels=classes)\<close>: entry
  \<open>(i, j)\<close> counts the samples of true label \<open>labels[i]\<close> predicted as \<open>labels[j]\<close>;
  a label that occurs twice in \<open>labels\<close> is counted at its last index, a sample with a
  label outside \<open>labels\<close> is not counted. No labels, or no label that occurs in a
  non-empty \<open>y_true\<close>, is a ValueError.
\<close>

definition label_to_ind :: "'a list \<Rightarrow> 'a \<rightharpoonup> nat" where
  "label_to_ind labels = fold (\<lambda>(x, y) m. m(y \<mapsto> x)) (enumerate 0 labels) Map.empty"

definition confusion_matrix :: "'a list \<Rightarrow> 'a list \<Rightarrow> 'a list \<Rightarrow> error + nat list list" where
  "confusion_matrix y_true y_pred labels =
     (let n = length labels in
      if length y_true \<noteq> length y_pred \<or> labels = [] then Inl ValueError
      else if y_true = [] then Inr (replicate n (replicate n 0))
      else if \<not> list_ex (\<lambda>t. t \<in> set labels) y_true then Inl ValueError
      else Inr (map (\<lambda>i. map (\<lambda>j. length (filter (\<lambda>(t, p). label_to_ind labels t = Some i \<and>
                                                        label_to_ind labels p = Some j)
                                               (zip y_true y_pred))) [0..<n]) [0..<n]))"

text \<open>\<^verbatim>\<open>EvalResult\<close> and \<^verbatim>\<open>evaluate\<close>; the calibration error with its default of 15 bins.\<close>

record 'a EvalResult =
  report :: "'a classification_report"
  confusion :: "nat list list"
  ece :: real
  brier :: real

definition evaluate :: "'a list \<Rightarrow> ndarray \<Rightarrow> 'a list \<Rightarrow> error + 'a EvalResult" where
  "evaluate y_true P classes =
     (case predicted_labels P classes of Inl e \<Rightarrow> Inl e | Inr preds \<Rightarrow>
      (case classification_report y_true preds of Inl e \<Rightarrow> Inl e | Inr rpt \<Rightarrow>
       (case confusion_matrix y_true preds classes of Inl e \<Rightarrow> Inl e | Inr cm \<Rightarrow>
        (case multiclass_brier y_true P classes of Inl e \<Rightarrow> Inl e | Inr b \<Rightarrow>
         (case expected_calibration_error y_true P classes 15 of Inl e \<Rightarrow> Inl e | Inr c \<Rightarrow>
            Inr \<lparr>report = rpt, confusion = cm, ece = c, brier = b\<rparr>)))))"

section \<open>Stratified folds\<close>

text \<open>
  \<^verbatim>\<open>main\<close> of \<^verbatim>\<open>run_cv.py\<close> splits with scikit-learn's
  \<^verbatim>\<open>StratifiedKFold(n_splits=folds, shuffle=True, random_state=42).split(X, y)\<close>.
  It is library code, modelled from its source: the classes are numbered in the order of
  their first sample, the sorted class numbers are dealt round-robin to the folds to fix
  how many samples of each class every fold gets, the fold numbers of each class are
  shuffled (Fisher-Yates, with the generator of seed 42) and assigned to the samples of
  the class in order. The generator is the parameter of the bootstrap model.
\<close>

datatype warning = LeastPopulatedClass nat

definition first_seen :: "'a list \<Rightarrow> 'a list" where
  "first_seen y = rev (remdups (rev y))"

fun index_of :: "'a list \<Rightarrow> 'a \<Rightarrow> nat" where
  "index_of [] x = 0"
| "index_of (c # cs) x = (if x = c then 0 else Suc (index_of cs x))"

definition encode :: "'a list \<Rightarrow> nat list" where
  "encode y = map (index_of (first_seen y)) y"

text \<open>\<^verbatim>\<open>a[i::n]\<close>\<close>

definition stride :: "nat \<Rightarrow> nat \<Rightarrow> 'a list \<Rightarrow> 'a list" where
  "stride i n a = map (\<lambda>j. a ! j) (filter (\<lambda>j. i \<le> j \<and> (j - i) mod n = 0) [0..<length a])"

definition allocation :: "'a list \<Rightarrow> nat \<Rightarrow> nat \<Rightarrow> nat \<Rightarrow> nat" where
  "allocation y n i k = count_list (stride i n (sort (encode y))) k"

definition folds_for_class :: "'a list \<Rightarrow> nat \<Rightarrow> nat \<Rightarrow> nat list" where
  "folds_for_class y n k = concat (map (\<lambda>i. replicate (allocation y n i k) i) [0..<n])"

text \<open>\<^verbatim>\<open>rng.shuffle\<close>: for \<open>i\<close> from the last index down to 1, swap entry \<open>i\<close> with an entry drawn from \<open>0..i\<close>.\<close>

fun shuffle_from :: "'g generator \<Rightarrow> 'g \<Rightarrow> nat \<Rightarrow> nat list \<Rightarrow> nat list \<times> 'g" where
  "shuffle_from G g 0 xs = (xs, g)"
| "shuffle_from G g (Suc m) xs =
     (case next_below G g (Suc (Suc m)) of (x, g') \<Rightarrow>
        let j = x mod Suc (Suc m) in
        shuffle_from G g' m (xs[Suc m := xs ! j, j := xs ! Suc m]))"

definition shuffle :: "'g generator \<Rightarrow> 'g \<Rightarrow> nat list \<Rightarrow> nat list \<times> 'g" where
  "shuffle G g xs = shuffle_from G g (length xs - 1) xs"

text \<open>\<^verbatim>\<open>test_folds[y_encoded == k] = folds_for_class\<close>\<close>

definition assign_class :: "nat list \<Rightarrow> nat \<Rightarrow> nat list \<Rightarrow> nat list \<Rightarrow> nat list" where
  "assign_class y_encoded k fs test_folds =
     fold (\<lambda>(pos, f) tf. tf[pos := f])
          (zip (filter (\<lambda>j. y_encoded ! j = k) [0..<length y_encoded]) fs) test_folds"

fun class_loop :: "'g generator \<Rightarrow> 'g \<Rightarrow> 'a list \<Rightarrow> nat \<Rightarrow> nat list \<Rightarrow> nat list \<Rightarrow> nat list" where
  "class_loop G g y n [] test_folds = test_folds"
| "class_loop G g y n (k # ks) test_folds =
     (case shuffle G g (folds_for_class y n k) of (fs, g') \<Rightarrow>
        class_loop G g' y n ks (assign_class (encode y) k fs test_folds))"

definition make_test_folds :: "'g generator \<Rightarrow> 'a list \<Rightarrow> nat \<Rightarrow> nat list" where
  "make_test_folds G y n =
     class_loop G (default_rng G 42) y n [0..<length (first_seen y)] (replicate (length y) 0)"

text \<open>
  The split: ValueError for fewer than 2 folds, for more folds than samples, and when
  \<^emph>\<open>every\<close> class has fewer members than folds; a warning, and the folds all the same,
  when only the least populated class has fewer. Fold \<open>i\<close> is the pair of the train and the
  test indices.
\<close>

definition stratified_kfold_split ::
  "'g generator \<Rightarrow> 'a list \<Rightarrow> int \<Rightarrow> error + warning list \<times> (nat list \<times> nat list) list" where
  "stratified_kfold_split G y n_splits =
     (let n = nat n_splits; counts = map (count_list y) (first_seen y) in
      if n_splits \<le> 1 then Inl ValueError
      else if length y < n then Inl ValueError
      else if list_all (\<lambda>c. c < n) counts then Inl ValueError
      else
        let warnings = (if list_ex (\<lambda>c. c < n) counts
                        then [LeastPopulatedClass (fold min counts (hd counts))] else []);
            test_folds = make_test_folds G y n
        in Inr (warnings,
                map (\<lambda>i. (filter (\<lambda>j. test_folds ! j \<noteq> i) [0..<length y],
                           filter (\<lambda>j. test_folds ! j = i) [0..<length y])) [0..<n]))"

section \<open>Properties of argmax\<close>

lemma argmax_scan_bounds:
  "bi < i \<Longrightarrow> argmax_scan bi bv i xs < i + length xs"
  by (induction bi bv i xs rule: argmax_scan.induct) auto

lemma argmax_scan_spec:
  assumes "bi < i" "length pre = i" "pre ! bi = bv"
    and "\<forall>j<i. pre ! j \<le> bv" and "\<forall>j<bi. pre ! j < bv"
  shows "(pre @ xs) ! argmax_scan bi bv i xs = fold max xs bv \<and>
         (\<forall>j < i + length xs. (pre @ xs) ! j \<le> fold max xs bv) \<and>
         (\<forall>j < argmax_scan bi bv i xs. (pre @ xs) ! j < fold max xs bv)"
  using assms
proof (induction bi bv i xs arbitrary: pre rule: argmax_scan.induct)
  case (1 bi bv i)
  then show ?case by simp
next
  case (2 bi bv i x xs)
  let ?pre = "pre @ [x]"
  have len: "length ?pre = Suc i" using "2.prems" by simp
  show ?case
  proof (cases "bv < x")
    case True
    have a: "?pre ! i = x" using "2.prems" by (simp add: nth_append)
    have b: "\<forall>j<Suc i. ?pre ! j \<le> x"
      using "2.prems" True by (auto simp: nth_append less_Suc_eq)
    have c: "\<forall>j<i. ?pre ! j < x"
      using "2.prems" True by (auto simp: nth_append)
    have m: "max bv x = x" using True by simp
    from "2.IH"(1)[OF True _ len a b c] True m show ?thesis by simp
  next
    case False
    have a: "?pre ! bi = bv" using "2.prems" by (simp add: nth_append)
    have b: "\<forall>j<Suc i. ?pre ! j \<le> bv"
      using "2.prems" False by (auto simp: nth_append less_Suc_eq)
    have c: "\<forall>j<bi. ?pre ! j < bv"
      using "2.prems" by (auto simp: nth_append)
    have lt: "bi < Suc i" using "2.prems" by simp
    have m: "max bv x = bv" using False by simp
    from "2.IH"(2)[OF False lt len a b c] False m show ?thesis by simp
  qed
qed

lemma row_argmax_spec:
  assumes "r \<noteq> []"
  shows "row_argmax r < length r \<and> r ! row_argmax r = row_max r \<and>
         (\<forall>j < length r. r ! j \<le> row_max r) \<and>
         (\<forall>j < row_argmax r. r ! j < row_max r)"
proof -
  from assms obtain x xs where r: "r = x # xs" by (cases r) auto
  have "argmax_scan 0 x 1 xs < 1 + length xs" by (rule argmax_scan_bounds) simp
  moreover have "([x] @ xs) ! argmax_scan 0 x 1 xs = fold max xs x \<and>
         (\<forall>j < 1 + length xs. ([x] @ xs) ! j \<le> fold max xs x) \<and>
         (\<forall>j < argmax_scan 0 x 1 xs. ([x] @ xs) ! j < fold max xs x)"
    by (rule argmax_scan_spec) auto
  ultimately show ?thesis using r by simp
qed

lemma row_max_eq_Max:
  assumes "r \<noteq> []"
  shows "row_max r = Max (set r)"
proof -
  from row_argmax_spec[OF assms]
  have a: "row_argmax r < length r" and b: "r ! row_argmax r = row_max r"
    and c: "\<forall>j<length r. r ! j \<le> row_max r" by auto
  have "Max (set r) = row_max r"
  proof (rule Max_eqI)
    show "finite (set r)" by simp
    show "\<And>y. y \<in> set r \<Longrightarrow> y \<le> row_max r" using c by (auto simp: in_set_conv_nth)
    show "row_max r \<in> set r" using a b by (metis nth_mem)
  qed
  then show ?thesis by simp
qed

lemma has_shape_row:
  assumes "has_shape P n k" "r < n"
  shows "length (rows P ! r) = k"
  using assms by (auto simp: has_shape_def is_ndarray_def list_all_length)

lemma predicted_labels_ok:
  assumes "has_shape P n (length classes)" "classes \<noteq> []"
  shows "predicted_labels P classes = Inr (map (\<lambda>r. classes ! row_argmax r) (rows P))"
proof -
  have k: "ncols P = length classes" "ncols P \<noteq> 0"
    using assms by (auto simp: has_shape_def)
  have "list_all (\<lambda>j. j < length classes) (map row_argmax (rows P))"
  proof -
    have "row_argmax r < length classes" if "r \<in> set (rows P)" for r
    proof -
      from that assms have "length r = length classes"
        by (auto simp: has_shape_def is_ndarray_def list_all_iff)
      with assms(2) have "r \<noteq> []" by auto
      from row_argmax_spec[OF this] \<open>length r = length classes\<close> show ?thesis by simp
    qed
    then show ?thesis by (simp add: list_all_iff)
  qed
  then show ?thesis
    using k by (simp add: predicted_labels_def argmax_axis1_def take_indices_def comp_def)
qed

section \<open>The Brier score is the mean of the per-class squared errors\<close>

lemma entry_le_sum_list:
  fixes r :: "real list"
  assumes "list_all (\<lambda>p. 0 \<le> p) r" "x \<in> set r"
  shows "x \<le> sum_list r"
  using assms
proof (induction r)
  case Nil then show ?case by simp
next
  case (Cons a r)
  have nn: "0 \<le> sum_list r" using Cons.prems(1) by (auto intro!: sum_list_nonneg simp: list_all_iff)
  show ?case
  proof (cases "x = a")
    case True then show ?thesis using nn by simp
  next
    case False
    with Cons have "x \<le> sum_list r" by auto
    moreover have "0 \<le> a" using Cons.prems(1) by simp
    ultimately show ?thesis by simp
  qed
qed

lemma prob_entry_bounds:
  assumes "has_shape P n k" "nonneg_entries P" "rows_sum_to_one P" "r < n" "c < k"
  shows "0 \<le> rows P ! r ! c \<and> rows P ! r ! c \<le> 1"
proof -
  let ?row = "rows P ! r"
  have rn: "r < length (rows P)" using assms by (simp add: has_shape_def)
  have len: "length ?row = k" by (rule has_shape_row[OF assms(1,4)])
  have nn: "list_all (\<lambda>p. 0 \<le> p) ?row"
    using assms(2) rn by (simp add: nonneg_entries_def list_all_length)
  have s: "sum_list ?row = 1"
    using assms(3) rn by (simp add: rows_sum_to_one_def list_all_length)
  have mem: "?row ! c \<in> set ?row" using len assms(5) by simp
  from entry_le_sum_list[OF nn mem] s nn mem show ?thesis by (auto simp: list_all_iff)
qed

lemma sq_err_sum:
  assumes "length rs = length y_true"
  shows "sum_list (map2 (\<lambda>y p. (real y - p)\<^sup>2) (binarize y_true c) (map (\<lambda>r. r ! j) rs))
       = (\<Sum>r<length y_true. ((if y_true ! r = c then 1 else 0) - rs ! r ! j)\<^sup>2)"
proof -
  let ?zs = "map2 (\<lambda>y p. (real y - p)\<^sup>2) (binarize y_true c) (map (\<lambda>r. r ! j) rs)"
  have l: "length ?zs = length y_true" using assms by (simp add: binarize_def)
  have "sum_list ?zs = (\<Sum>r = 0..<length ?zs. ?zs ! r)" by (rule sum_list_sum_nth)
  also have "\<dots> = (\<Sum>r<length y_true. ?zs ! r)" using l by (simp add: lessThan_atLeast0)
  also have "\<dots> = (\<Sum>r<length y_true. ((if y_true ! r = c then 1 else 0) - rs ! r ! j)\<^sup>2)"
    by (rule sum.cong) (use assms in \<open>auto simp: binarize_def\<close>)
  finally show ?thesis .
qed


lemma brier_score_loss_column:
  assumes sh: "has_shape P (length y_true) k" and ne: "y_true \<noteq> []"
    and bd: "\<forall>r<length y_true. 0 \<le> rows P ! r ! j \<and> rows P ! r ! j \<le> 1"
  shows "brier_score_loss (binarize y_true c) (map (\<lambda>r. r ! j) (rows P)) = Inr (col_mse y_true P j c)"
proof -
  have n: "length (rows P) = length y_true" using sh by (simp add: has_shape_def)
  have "\<not> list_ex (\<lambda>p. p < 0 \<or> 1 < p) (map (\<lambda>r. r ! j) (rows P))"
    using bd n by (fastforce simp: list_ex_iff in_set_conv_nth not_less)
  moreover have "map (\<lambda>r. r ! j) (rows P) \<noteq> []" using n ne by auto
  moreover have "length (binarize y_true c) = length (map (\<lambda>r. r ! j) (rows P))"
    using n by (simp add: binarize_def)
  ultimately show ?thesis
    unfolding brier_score_loss_def col_mse_def using sq_err_sum[OF n, of c j] n by simp
qed

lemma brier_scores_enumerate:
  assumes sh: "has_shape P (length y_true) k" and ne: "y_true \<noteq> []"
    and bd: "\<forall>r<length y_true. \<forall>j<k. 0 \<le> rows P ! r ! j \<and> rows P ! r ! j \<le> 1"
    and le: "i + length cs \<le> k"
  shows "brier_scores y_true P (enumerate i cs)
       = Inr (map (\<lambda>(j, c). col_mse y_true P j c) (enumerate i cs))"
  using le
proof (induction cs arbitrary: i)
  case Nil
  then show ?case by simp
next
  case (Cons c cs)
  have ik: "i < k" using Cons.prems by simp
  have col: "column P i = Inr (map (\<lambda>r. r ! i) (rows P))"
    using ik sh by (simp add: column_def has_shape_def)
  have b: "brier_score_loss (binarize y_true c) (map (\<lambda>r. r ! i) (rows P)) = Inr (col_mse y_true P i c)"
    by (rule brier_score_loss_column[OF sh ne]) (use bd ik in auto)
  have ih: "brier_scores y_true P (enumerate (Suc i) cs)
       = Inr (map (\<lambda>(j, c). col_mse y_true P j c) (enumerate (Suc i) cs))"
    by (rule Cons.IH) (use Cons.prems in simp)
  show ?case by (simp add: col b ih)
qed

lemma sum_list_enumerate:
  fixes g :: "nat \<Rightarrow> 'a \<Rightarrow> real"
  shows "sum_list (map (\<lambda>(j, c). g j c) (enumerate 0 cs)) = (\<Sum>j<length cs. g j (cs ! j))"
proof -
  let ?zs = "map (\<lambda>(j, c). g j c) (enumerate 0 cs)"
  have "sum_list ?zs = (\<Sum>j = 0..<length ?zs. ?zs ! j)" by (rule sum_list_sum_nth)
  also have "\<dots> = (\<Sum>j<length cs. ?zs ! j)" by (simp add: lessThan_atLeast0)
  also have "\<dots> = (\<Sum>j<length cs. g j (cs ! j))"
    by (rule sum.cong) (auto simp: nth_enumerate_eq)
  finally show ?thesis .
qed

lemma col_mse_class_mse:
  "col_mse y_true P j (classes ! j) = class_mse y_true P classes j"
  by (simp add: col_mse_def class_mse_def indicator_of_def)

lemma multiclass_brier_eq_spec:
  assumes sh: "has_shape P (length y_true) (length classes)" and ne: "y_true \<noteq> []"
    and cne: "classes \<noteq> []"
    and bd: "\<forall>r<length y_true. \<forall>j<length classes. 0 \<le> rows P ! r ! j \<and> rows P ! r ! j \<le> 1"
  shows "multiclass_brier y_true P classes = Inr (brier_spec y_true P classes)"
proof -
  have "brier_scores y_true P (enumerate 0 classes)
       = Inr (map (\<lambda>(j, c). col_mse y_true P j c) (enumerate 0 classes))"
    by (rule brier_scores_enumerate[OF sh ne bd]) simp
  moreover have "map (\<lambda>(j, c). col_mse y_true P j c) (enumerate 0 classes) \<noteq> []"
    using cne by (cases classes) auto
  ultimately show ?thesis
    unfolding multiclass_brier_def np_mean_def brier_spec_def
    by (simp add: sum_list_enumerate col_mse_class_mse)
qed


lemma sq_err_bounds:
  fixes p :: real
  assumes "0 \<le> p" "p \<le> 1" "b = 0 \<or> b = 1"
  shows "0 \<le> (b - p)\<^sup>2 \<and> (b - p)\<^sup>2 \<le> 1"
proof -
  have "\<bar>b - p\<bar> \<le> 1" using assms by auto
  then have "(b - p)\<^sup>2 \<le> 1\<^sup>2" by (metis abs_le_square_iff abs_one)
  then show ?thesis by simp
qed

lemma class_mse_bounds:
  assumes ne: "y_true \<noteq> []"
    and bd: "\<forall>r<length y_true. 0 \<le> rows P ! r ! c \<and> rows P ! r ! c \<le> 1"
  shows "0 \<le> class_mse y_true P classes c \<and> class_mse y_true P classes c \<le> 1"
proof -
  let ?t = "\<lambda>r. (indicator_of y_true classes r c - rows P ! r ! c)\<^sup>2"
  have t: "0 \<le> ?t r \<and> ?t r \<le> 1" if "r < length y_true" for r
    by (rule sq_err_bounds) (use bd that in \<open>auto simp: indicator_of_def\<close>)
  have lo: "0 \<le> (\<Sum>r<length y_true. ?t r)" by (rule sum_nonneg) (use t in auto)
  have "(\<Sum>r<length y_true. ?t r) \<le> (\<Sum>r<length y_true. 1)"
    by (rule sum_mono) (use t in auto)
  then have hi: "(\<Sum>r<length y_true. ?t r) \<le> real (length y_true)" by simp
  have pos: "0 < real (length y_true)" using ne by simp
  show ?thesis unfolding class_mse_def using lo hi pos by (simp add: divide_le_eq)
qed

lemma class_mse_zero_iff:
  assumes ne: "y_true \<noteq> []"
  shows "class_mse y_true P classes c = 0 \<longleftrightarrow>
         (\<forall>r<length y_true. rows P ! r ! c = indicator_of y_true classes r c)"
proof -
  let ?t = "\<lambda>r. (indicator_of y_true classes r c - rows P ! r ! c)\<^sup>2"
  have pos: "real (length y_true) \<noteq> 0" using ne by simp
  have "class_mse y_true P classes c = 0 \<longleftrightarrow> (\<Sum>r<length y_true. ?t r) = 0"
    unfolding class_mse_def using pos by simp
  also have "\<dots> \<longleftrightarrow> (\<forall>r\<in>{..<length y_true}. ?t r = 0)"
    by (rule sum_nonneg_eq_0_iff) auto
  also have "\<dots> \<longleftrightarrow> (\<forall>r<length y_true. rows P ! r ! c = indicator_of y_true classes r c)"
    by auto
  finally show ?thesis .
qed

lemma brier_spec_bounds:
  assumes ne: "y_true \<noteq> []" and cne: "classes \<noteq> []"
    and bd: "\<forall>r<length y_true. \<forall>j<length classes. 0 \<le> rows P ! r ! j \<and> rows P ! r ! j \<le> 1"
  shows "0 \<le> brier_spec y_true P classes \<and> brier_spec y_true P classes \<le> 1"
proof -
  let ?m = "\<lambda>c. class_mse y_true P classes c"
  have m: "0 \<le> ?m c \<and> ?m c \<le> 1" if "c < length classes" for c
    by (rule class_mse_bounds[OF ne]) (use bd that in auto)
  have lo: "0 \<le> (\<Sum>c<length classes. ?m c)" by (rule sum_nonneg) (use m in auto)
  have "(\<Sum>c<length classes. ?m c) \<le> (\<Sum>c<length classes. 1)"
    by (rule sum_mono) (use m in auto)
  then have hi: "(\<Sum>c<length classes. ?m c) \<le> real (length classes)" by simp
  have pos: "0 < real (length classes)" using cne by simp
  show ?thesis unfolding brier_spec_def using lo hi pos by (simp add: divide_le_eq)
qed

lemma brier_spec_zero_iff:
  assumes ne: "y_true \<noteq> []" and cne: "classes \<noteq> []"
    and bd: "\<forall>r<length y_true. \<forall>j<length classes. 0 \<le> rows P ! r ! j \<and> rows P ! r ! j \<le> 1"
  shows "brier_spec y_true P classes = 0 \<longleftrightarrow>
         (\<forall>r<length y_true. \<forall>c<length classes. rows P ! r ! c = indicator_of y_true classes r c)"
proof -
  let ?m = "\<lambda>c. class_mse y_true P classes c"
  have m: "0 \<le> ?m c" if "c < length classes" for c
    using class_mse_bounds[OF ne, of P c classes] bd that by auto
  have pos: "real (length classes) \<noteq> 0" using cne by simp
  have "brier_spec y_true P classes = 0 \<longleftrightarrow> (\<Sum>c<length classes. ?m c) = 0"
    unfolding brier_spec_def using pos by simp
  also have "\<dots> \<longleftrightarrow> (\<forall>c\<in>{..<length classes}. ?m c = 0)"
    by (rule sum_nonneg_eq_0_iff) (use m in auto)
  also have "\<dots> \<longleftrightarrow> (\<forall>r<length y_true. \<forall>c<length classes. rows P ! r ! c = indicator_of y_true classes r c)"
    using class_mse_zero_iff[OF ne, of P classes] by auto
  finally show ?thesis .
qed

lemma sum_list_one_hot_like:
  fixes row :: "real list"
  assumes "\<forall>c<length row. row ! c = 0"
  shows "sum_list row = 0"
proof -
  have "sum_list row = (\<Sum>c = 0..<length row. row ! c)" by (rule sum_list_sum_nth)
  also have "\<dots> = 0" using assms by simp
  finally show ?thesis .
qed

lemma one_hot_on_label_iff:
  assumes d: "distinct classes" and len: "length row = length classes" and s: "sum_list row = 1"
  shows "one_hot_on_label classes t row \<longleftrightarrow>
         (\<forall>c<length classes. row ! c = (if t = classes ! c then 1 else 0))"
proof
  assume "one_hot_on_label classes t row"
  then obtain j where j: "j < length classes" "classes ! j = t" "row = one_hot (length classes) j"
    by (auto simp: one_hot_on_label_def list_ex_iff)
  show "\<forall>c<length classes. row ! c = (if t = classes ! c then 1 else 0)"
  proof (intro allI impI)
    fix c assume c: "c < length classes"
    have "row ! c = (if c = j then 1 else 0)" using j(3) c by (simp add: one_hot_def)
    moreover have "c = j \<longleftrightarrow> t = classes ! c"
      using d c j(1,2) by (auto simp: nth_eq_iff_index_eq)
    ultimately show "row ! c = (if t = classes ! c then 1 else 0)" by simp
  qed
next
  assume a: "\<forall>c<length classes. row ! c = (if t = classes ! c then 1 else 0)"
  have "\<exists>j<length classes. classes ! j = t"
  proof (rule ccontr)
    assume "\<not> (\<exists>j<length classes. classes ! j = t)"
    with a len have "\<forall>c<length row. row ! c = 0" by auto
    from sum_list_one_hot_like[OF this] s show False by simp
  qed
  then obtain j where j: "j < length classes" "classes ! j = t" by auto
  have "row = one_hot (length classes) j"
  proof (rule nth_equalityI)
    show "length row = length (one_hot (length classes) j)" using len by (simp add: one_hot_def)
  next
    fix c assume "c < length row"
    then have c: "c < length classes" using len by simp
    have "c = j \<longleftrightarrow> t = classes ! c"
      using d c j by (auto simp: nth_eq_iff_index_eq)
    then show "row ! c = one_hot (length classes) j ! c"
      using a c by (simp add: one_hot_def)
  qed
  with j show "one_hot_on_label classes t row"
    by (auto simp: one_hot_on_label_def list_ex_iff)
qed

section \<open>Boolean masks as index sets\<close>

lemma select_conv_indices:
  assumes "length xs = length ms"
  shows "select xs ms = map ((!) xs) (filter ((!) ms) [0..<length xs])"
  using assms
proof (induction xs arbitrary: ms rule: rev_induct)
  case Nil
  then show ?case by (simp add: select_def)
next
  case (snoc x xs)
  then obtain m ms' where ms: "ms = ms' @ [m]" and l: "length xs = length ms'"
    by (cases ms rule: rev_cases) auto
  have ih: "select xs ms' = map ((!) xs) (filter ((!) ms') [0..<length xs])"
    by (rule snoc.IH[OF l])
  have f: "filter ((!) (ms' @ [m])) [0..<length xs] = filter ((!) ms') [0..<length xs]"
    by (rule filter_cong) (use l in \<open>auto simp: nth_append\<close>)
  have g: "map ((!) (xs @ [x])) (filter ((!) ms') [0..<length xs])
         = map ((!) xs) (filter ((!) ms') [0..<length xs])"
    by (rule map_cong) (auto simp: nth_append)
  have h: "filter ((!) (ms' @ [m])) [length xs] = (if m then [length xs] else [])"
    using l by (simp add: nth_append)
  have "select (xs @ [x]) (ms' @ [m]) = select xs ms' @ (if m then [x] else [])"
    using l by (simp add: select_def)
  also have "\<dots> = map ((!) (xs @ [x])) (filter ((!) (ms' @ [m])) [0..<length xs])
                   @ (if m then [x] else [])"
    by (simp only: ih f g)
  also have "\<dots> = map ((!) (xs @ [x])) (filter ((!) (ms' @ [m])) ([0..<length xs] @ [length xs]))"
    by (simp only: filter_append map_append h) simp
  also have "[0..<length xs] @ [length xs] = [0..<length (xs @ [x])]" by simp
  finally show ?case using ms by simp
qed

lemma set_mask_indices:
  "set (filter ((!) ms) [0..<n]) = {i. i < n \<and> ms ! i}"
  by auto

lemma length_select:
  assumes "length xs = length ms"
  shows "length (select xs ms) = card {i. i < length ms \<and> ms ! i}"
proof -
  have "length (select xs ms) = length (filter ((!) ms) [0..<length ms])"
    using assms by (simp add: select_conv_indices)
  also have "\<dots> = card (set (filter ((!) ms) [0..<length ms]))"
    by (rule distinct_card[symmetric]) simp
  finally show ?thesis by (simp only: set_mask_indices)
qed

lemma sum_list_select:
  fixes xs :: "real list"
  assumes "length xs = length ms"
  shows "sum_list (select xs ms) = (\<Sum>i\<in>{i. i < length ms \<and> ms ! i}. xs ! i)"
proof -
  have "sum_list (select xs ms) = sum_list (map ((!) xs) (filter ((!) ms) [0..<length ms]))"
    using assms by (simp add: select_conv_indices)
  also have "\<dots> = sum ((!) xs) (set (filter ((!) ms) [0..<length ms]))"
    by (rule sum_list_distinct_conv_sum_set) simp
  finally show ?thesis by (simp only: set_mask_indices)
qed

lemma count_true_select:
  assumes "length bs = length ms"
  shows "length (filter id (select bs ms)) = card {i. i < length ms \<and> ms ! i \<and> bs ! i}"
proof -
  have "filter id (select bs ms) = map ((!) bs) (filter ((!) bs) (filter ((!) ms) [0..<length ms]))"
    using assms by (simp add: select_conv_indices filter_map comp_def)
  then have "length (filter id (select bs ms))
      = length (filter ((!) bs) (filter ((!) ms) [0..<length ms]))"
    by simp
  also have "filter ((!) bs) (filter ((!) ms) [0..<length ms])
      = filter (\<lambda>i. ms ! i \<and> bs ! i) [0..<length ms]"
    by (simp add: conj_commute)
  also have "length (filter (\<lambda>i. ms ! i \<and> bs ! i) [0..<length ms])
      = card (set (filter (\<lambda>i. ms ! i \<and> bs ! i) [0..<length ms]))"
    by (rule distinct_card[symmetric]) simp
  also have "set (filter (\<lambda>i. ms ! i \<and> bs ! i) [0..<length ms]) = {i. i < length ms \<and> ms ! i \<and> bs ! i}"
    by auto
  finally show ?thesis .
qed

lemma count_true_mask:
  "length (filter id ms) = card {i. i < length ms \<and> ms ! i}"
  by (simp add: length_filter_conv_card)

lemma list_ex_mask:
  "list_ex id ms \<longleftrightarrow> {i. i < length ms \<and> ms ! i} \<noteq> {}"
proof -
  have "list_ex id ms \<longleftrightarrow> (\<exists>i<length ms. ms ! i)" by (simp add: list_ex_length)
  then show ?thesis by blast
qed

section \<open>The loop over the bins is the sum of the bin contributions\<close>

lemma linspace01_nth:
  assumes "0 < B" "i \<le> B"
  shows "linspace01 (Suc B) ! i = real i / real B"
proof -
  have "i < Suc B" using assms by simp
  then have "map (\<lambda>i. real i / real B) [0..<Suc B] ! i = real i / real B"
    by (simp only: nth_map_upt) simp
  with assms show ?thesis by (simp add: linspace01_def)
qed

lemma bin_mask_members:
  assumes "length (rows P) = n"
  shows "{r. r < length (bin_mask (real i / real B) (real (i + 1) / real B) (map row_max (rows P))) \<and>
             bin_mask (real i / real B) (real (i + 1) / real B) (map row_max (rows P)) ! r}
         = bin_members P B i"
  by (auto simp: bin_mask_def bin_members_def confidence_def)

lemma ece_bin_contribution:
  assumes n: "length (rows P) = length y_true" and B: "0 < B" and i: "i < B"
  shows "ece_bin (map row_max (rows P))
           (map2 (\<lambda>x y. x = y) (map (\<lambda>r. classes ! row_argmax r) (rows P)) y_true)
           (linspace01 (Suc B)) i e
         = e + bin_contribution y_true P classes B i"
proof -
  let ?confs = "map row_max (rows P)"
  let ?correct = "map2 (\<lambda>x y. x = y) (map (\<lambda>r. classes ! row_argmax r) (rows P)) y_true"
  let ?lo = "real i / real B" and ?hi = "real (i + 1) / real B"
  let ?msk = "bin_mask ?lo ?hi ?confs"
  let ?M = "bin_members P B i"
  have lo: "linspace01 (Suc B) ! i = ?lo" using linspace01_nth[OF B, of i] i by simp
  have hi: "linspace01 (Suc B) ! (i + 1) = ?hi" using linspace01_nth[OF B, of "i + 1"] i by simp
  have lm: "length ?msk = length (rows P)" by (simp add: bin_mask_def)
  have lc: "length ?confs = length ?msk" by (simp add: bin_mask_def)
  have lb: "length ?correct = length ?msk" using n by (simp add: bin_mask_def)
  have M: "{r. r < length ?msk \<and> ?msk ! r} = ?M" by (rule bin_mask_members[OF refl])
  have Mlt: "r < length (rows P)" if "r \<in> ?M" for r using that by (simp add: bin_members_def)
  have ex: "list_ex id ?msk \<longleftrightarrow> ?M \<noteq> {}" by (simp only: list_ex_mask M)
  have w: "mean_bool ?msk = real (card ?M) / real (length (rows P))"
    unfolding mean_bool_def by (simp only: count_true_mask M) (simp only: lm)
  have len_sel_b: "length (select ?correct ?msk) = card ?M"
    by (simp only: length_select[OF lb] M)
  have len_sel_c: "length (select ?confs ?msk) = card ?M"
    by (simp only: length_select[OF lc] M)
  have "{r. r < length ?msk \<and> ?msk ! r \<and> ?correct ! r} = {r \<in> ?M. ?correct ! r}"
    using M by blast
  also have "\<dots> = {r \<in> ?M. is_correct y_true P classes r}"
    using Mlt n by (auto simp: is_correct_def)
  finally have cs: "{r. r < length ?msk \<and> ?msk ! r \<and> ?correct ! r}
      = {r \<in> ?M. is_correct y_true P classes r}" .
  have acc: "mean_bool (select ?correct ?msk)
      = real (card {r \<in> ?M. is_correct y_true P classes r}) / real (card ?M)"
    unfolding mean_bool_def by (simp only: count_true_select[OF lb] cs len_sel_b)
  have "sum_list (select ?confs ?msk) = (\<Sum>r\<in>?M. ?confs ! r)"
    by (simp only: sum_list_select[OF lc] M)
  also have "\<dots> = (\<Sum>r\<in>?M. confidence P r)"
    by (rule sum.cong) (use Mlt in \<open>auto simp: confidence_def\<close>)
  finally have conf: "mean_real (select ?confs ?msk) = (\<Sum>r\<in>?M. confidence P r) / real (card ?M)"
    unfolding mean_real_def by (simp only: len_sel_c)
  show ?thesis
    unfolding ece_bin_def bin_contribution_def Let_def lo hi
    by (simp only: ex w acc conf split: if_splits) simp
qed

lemma ece_loop_sum:
  assumes n: "length (rows P) = length y_true" and B: "0 < B" and js: "\<forall>i\<in>set js. i < B"
  shows "ece_loop (map row_max (rows P))
           (map2 (\<lambda>x y. x = y) (map (\<lambda>r. classes ! row_argmax r) (rows P)) y_true)
           (linspace01 (Suc B)) js e
         = e + sum_list (map (bin_contribution y_true P classes B) js)"
  using js
proof (induction js arbitrary: e)
  case Nil
  then show ?case by simp
next
  case (Cons i js)
  have i: "i < B" using Cons.prems by simp
  show ?case
    using Cons.IH[of "e + bin_contribution y_true P classes B i"] Cons.prems
    by (simp add: ece_bin_contribution[OF n B i] add.assoc)
qed

lemma expected_calibration_error_eq_spec:
  assumes sh: "has_shape P (length y_true) (length classes)" and cne: "classes \<noteq> []"
    and b: "- 1 \<le> bins"
  shows "expected_calibration_error y_true P classes bins
         = Inr (ece_spec y_true P classes (nat bins))"
proof -
  have n: "length (rows P) = length y_true" using sh by (simp add: has_shape_def)
  have k: "ncols P \<noteq> 0" using sh cne by (simp add: has_shape_def)
  let ?confs = "map row_max (rows P)"
  let ?labels = "map (\<lambda>r. classes ! row_argmax r) (rows P)"
  let ?correct = "map2 (\<lambda>x y. x = y) ?labels y_true"
  have a: "amax_axis1 P = Inr ?confs" using k by (simp add: amax_axis1_def)
  have p: "predicted_labels P classes = Inr ?labels" by (rule predicted_labels_ok[OF sh cne])
  have c: "elementwise_eq ?labels y_true = Inr ?correct" using n by (simp add: elementwise_eq_def)
  have l: "ece_loop ?confs ?correct (linspace01 (nat (bins + 1))) [0..<nat bins] 0
         = ece_spec y_true P classes (nat bins)"
  proof (cases "0 < nat bins")
    case True
    then have s: "nat (bins + 1) = Suc (nat bins)" by simp
    have "ece_loop ?confs ?correct (linspace01 (Suc (nat bins))) [0..<nat bins] 0
        = 0 + sum_list (map (bin_contribution y_true P classes (nat bins)) [0..<nat bins])"
      by (rule ece_loop_sum[OF n True]) simp
    also have "\<dots> = (\<Sum>i<nat bins. bin_contribution y_true P classes (nat bins) i)"
      by (simp add: sum_list_sum_nth lessThan_atLeast0)
    finally show ?thesis by (simp only: s ece_spec_def)
  next
    case False
    then show ?thesis by (simp add: ece_spec_def)
  qed
  show ?thesis
    unfolding expected_calibration_error_def using b by (simp add: a p c l)
qed

section \<open>The bins are disjoint, and cover the confidences in \<open>(0, 1]\<close>\<close>

lemma bin_members_bounded: "bin_members P B i \<subseteq> {..<length (rows P)}"
  by (auto simp: bin_members_def)

lemma finite_bin_members: "finite (bin_members P B i)"
  by (rule finite_subset[OF bin_members_bounded]) simp

lemma bin_members_disjoint:
  assumes "i \<noteq> j"
  shows "bin_members P B i \<inter> bin_members P B j = {}"
proof -
  have aux: False
    if "a < b" and lo: "real b / real B < c" and hi: "c \<le> real (a + 1) / real B"
    for a b :: nat and c :: real
  proof -
    have "real (a + 1) \<le> real b" using that(1) by simp
    then have "real (a + 1) / real B \<le> real b / real B" by (rule divide_right_mono) simp
    with lo hi show False by simp
  qed
  show ?thesis
  proof (rule ccontr)
    assume "bin_members P B i \<inter> bin_members P B j \<noteq> {}"
    then obtain r where r: "r \<in> bin_members P B i" "r \<in> bin_members P B j" by auto
    from assms consider "i < j" | "j < i" by (meson nat_neq_iff)
    then show False
    proof cases
      case 1
      with r aux[of i j "confidence P r"] show False by (simp add: bin_members_def)
    next
      case 2
      with r aux[of j i "confidence P r"] show False by (simp add: bin_members_def)
    qed
  qed
qed

lemma sum_card_bin_members:
  "(\<Sum>i<B. card (bin_members P B i)) = card (\<Union>i<B. bin_members P B i)"
proof -
  have "card (\<Union>i\<in>{..<B}. bin_members P B i) = (\<Sum>i\<in>{..<B}. card (bin_members P B i))"
    by (rule card_UN_disjoint) (auto simp: finite_bin_members bin_members_disjoint)
  then show ?thesis by simp
qed

lemma sum_card_bin_members_le:
  "(\<Sum>i<B. card (bin_members P B i)) \<le> length (rows P)"
proof -
  have "(\<Union>i<B. bin_members P B i) \<subseteq> {..<length (rows P)}"
    using bin_members_bounded by blast
  then have "card (\<Union>i<B. bin_members P B i) \<le> card {..<length (rows P)}"
    by (rule card_mono[rotated]) simp
  then show ?thesis by (simp add: sum_card_bin_members)
qed

lemma bin_exists:
  assumes B: "0 < B" and c: "0 < c" "c \<le> 1"
  shows "\<exists>i<B. real i / real B < c \<and> c \<le> real (i + 1) / real B"
proof -
  define m where "m = nat \<lceil>c * real B\<rceil>"
  have pos: "0 < c * real B" using B c by simp
  then have c1: "1 \<le> \<lceil>c * real B\<rceil>" by (simp add: ceiling_le_iff[symmetric] less_le_not_le)
  have up: "c * real B \<le> real_of_int \<lceil>c * real B\<rceil>" by (rule le_of_int_ceiling)
  have lw: "real_of_int \<lceil>c * real B\<rceil> - 1 < c * real B" using ceiling_correct[of "c * real B"] by simp
  have cB: "c * real B \<le> real B" using c B by (simp add: mult_left_le_one_le)
  have "\<lceil>c * real B\<rceil> \<le> int B" using cB by (simp add: ceiling_le_iff)
  then have mB: "m \<le> B" unfolding m_def by linarith
  have m1: "1 \<le> m" unfolding m_def using c1 by linarith
  have "int m = \<lceil>c * real B\<rceil>" unfolding m_def using c1 by linarith
  then have rm: "real m = real_of_int \<lceil>c * real B\<rceil>" by (metis of_int_of_nat_eq)
  let ?i = "m - 1"
  have iB: "?i < B" using mB m1 by simp
  have ri: "real ?i = real m - 1" using m1 by (simp add: of_nat_diff)
  have Bp: "0 < real B" using B by simp
  have "real ?i < c * real B" using lw rm ri by simp
  then have a: "real ?i / real B < c" using Bp by (simp add: divide_less_eq)
  have "c * real B \<le> real (?i + 1)" using up rm m1 by simp
  then have b: "c \<le> real (?i + 1) / real B" using Bp by (simp add: le_divide_eq)
  from iB a b show ?thesis by blast
qed

section \<open>Bounds on the calibration error\<close>

lemma bin_gap_le_one:
  assumes B: "0 < B" and i: "i < B" and ne: "bin_members P B i \<noteq> {}"
  shows "\<bar>real (card {r \<in> bin_members P B i. is_correct y_true P classes r}) / real (card (bin_members P B i))
          - (\<Sum>r\<in>bin_members P B i. confidence P r) / real (card (bin_members P B i))\<bar> \<le> 1"
proof -
  let ?M = "bin_members P B i"
  have fin: "finite ?M" by (rule finite_bin_members)
  have cpos: "0 < card ?M" using ne fin by (simp add: card_gt_0_iff)
  then have rpos: "0 < real (card ?M)" by simp
  have "card {r \<in> ?M. is_correct y_true P classes r} \<le> card ?M"
    by (rule card_mono[OF fin]) auto
  then have a1: "real (card {r \<in> ?M. is_correct y_true P classes r}) / real (card ?M) \<le> 1"
    using rpos by (simp add: divide_le_eq)
  have a0: "0 \<le> real (card {r \<in> ?M. is_correct y_true P classes r}) / real (card ?M)" by simp
  have Bp: "0 < real B" using B by simp
  have cb: "0 \<le> confidence P r \<and> confidence P r \<le> 1" if "r \<in> ?M" for r
  proof -
    from that have lo: "real i / real B < confidence P r" and hi: "confidence P r \<le> real (i + 1) / real B"
      by (simp_all add: bin_members_def)
    have "0 \<le> real i / real B" by simp
    moreover have "real (i + 1) / real B \<le> 1" using i Bp by (simp add: divide_le_eq)
    ultimately show ?thesis using lo hi by linarith
  qed
  have s0: "0 \<le> (\<Sum>r\<in>?M. confidence P r)" by (rule sum_nonneg) (use cb in auto)
  have "(\<Sum>r\<in>?M. confidence P r) \<le> (\<Sum>r\<in>?M. 1)" by (rule sum_mono) (use cb in auto)
  then have s1: "(\<Sum>r\<in>?M. confidence P r) \<le> real (card ?M)" by simp
  have c0: "0 \<le> (\<Sum>r\<in>?M. confidence P r) / real (card ?M)" using s0 by simp
  have c1: "(\<Sum>r\<in>?M. confidence P r) / real (card ?M) \<le> 1" using s1 rpos by (simp add: divide_le_eq)
  show ?thesis using a0 a1 c0 c1 by linarith
qed

lemma bin_contribution_bounds:
  assumes B: "0 < B" and i: "i < B"
  shows "0 \<le> bin_contribution y_true P classes B i \<and>
         bin_contribution y_true P classes B i
           \<le> real (card (bin_members P B i)) / real (length (rows P))"
proof (cases "bin_members P B i = {}")
  case True
  then show ?thesis by (simp add: bin_contribution_def)
next
  case False
  let ?w = "real (card (bin_members P B i)) / real (length (rows P))"
  let ?g = "\<bar>real (card {r \<in> bin_members P B i. is_correct y_true P classes r}) / real (card (bin_members P B i))
          - (\<Sum>r\<in>bin_members P B i. confidence P r) / real (card (bin_members P B i))\<bar>"
  have bc: "bin_contribution y_true P classes B i = ?w * ?g"
    using False by (simp add: bin_contribution_def Let_def)
  have w0: "0 \<le> ?w" by simp
  have g0: "0 \<le> ?g" by simp
  have g1: "?g \<le> 1" by (rule bin_gap_le_one[OF B i False])
  have "?w * ?g \<le> ?w * 1" by (rule mult_left_mono[OF g1 w0])
  moreover have "0 \<le> ?w * ?g" by (rule mult_nonneg_nonneg[OF w0 g0])
  ultimately show ?thesis unfolding bc by simp
qed

lemma ece_spec_bounds:
  "0 \<le> ece_spec y_true P classes B \<and> ece_spec y_true P classes B \<le> 1"
proof (cases "0 < B")
  case False
  then show ?thesis by (simp add: ece_spec_def)
next
  case True
  let ?n = "length (rows P)"
  have lo: "0 \<le> ece_spec y_true P classes B"
    unfolding ece_spec_def by (rule sum_nonneg) (use bin_contribution_bounds[OF True] in auto)
  have "ece_spec y_true P classes B \<le> (\<Sum>i<B. real (card (bin_members P B i)) / real ?n)"
    unfolding ece_spec_def by (rule sum_mono) (use bin_contribution_bounds[OF True] in auto)
  also have "\<dots> = real (\<Sum>i<B. card (bin_members P B i)) / real ?n"
    by (simp add: sum_divide_distrib)
  also have "\<dots> \<le> 1"
  proof (cases "?n = 0")
    case True
    then show ?thesis by simp
  next
    case False
    have "real (\<Sum>i<B. card (bin_members P B i)) \<le> real ?n"
      using sum_card_bin_members_le[where B=B and P=P] by (simp only: of_nat_le_iff)
    then show ?thesis using False by (simp add: divide_le_eq)
  qed
  finally show ?thesis using lo by simp
qed

lemma bin_contribution_perfect:
  assumes all: "\<forall>r<length (rows P). is_correct y_true P classes r \<and> confidence P r = 1"
  shows "bin_contribution y_true P classes B i = 0"
proof (cases "bin_members P B i = {}")
  case True
  then show ?thesis by (simp add: bin_contribution_def)
next
  case False
  let ?M = "bin_members P B i"
  have fin: "finite ?M" by (rule finite_bin_members)
  have cpos: "real (card ?M) \<noteq> 0" using False fin by simp
  have lt: "r < length (rows P)" if "r \<in> ?M" for r using that by (simp add: bin_members_def)
  have "{r \<in> ?M. is_correct y_true P classes r} = ?M" using all lt by blast
  then have a: "real (card {r \<in> ?M. is_correct y_true P classes r}) / real (card ?M) = 1"
    using cpos by simp
  have "(\<Sum>r\<in>?M. confidence P r) = (\<Sum>r\<in>?M. 1)"
    by (rule sum.cong) (use all lt in auto)
  then have c: "(\<Sum>r\<in>?M. confidence P r) / real (card ?M) = 1" using cpos by simp
  show ?thesis using False by (simp add: bin_contribution_def Let_def a c)
qed

lemma ece_spec_perfect:
  assumes "\<forall>r<length (rows P). is_correct y_true P classes r \<and> confidence P r = 1"
  shows "ece_spec y_true P classes B = 0"
  unfolding ece_spec_def by (simp add: bin_contribution_perfect[OF assms])

section \<open>Confidence of a probability row\<close>

lemma sum_list_le_length_times:
  fixes r :: "real list"
  assumes "\<forall>x\<in>set r. x \<le> m"
  shows "sum_list r \<le> real (length r) * m"
  using assms by (induction r) (auto simp: algebra_simps)

lemma confidence_bounds:
  assumes sh: "has_shape P n k" and nn: "nonneg_entries P" and s1: "rows_sum_to_one P"
    and r: "r < n" and k: "0 < k"
  shows "1 / real k \<le> confidence P r \<and> 0 < confidence P r \<and> confidence P r \<le> 1"
proof -
  let ?row = "rows P ! r"
  have rn: "r < length (rows P)" using sh r by (simp add: has_shape_def)
  have len: "length ?row = k" by (rule has_shape_row[OF sh r])
  then have ne: "?row \<noteq> []" using k by auto
  note spec = row_argmax_spec[OF ne]
  have s: "sum_list ?row = 1" using s1 rn by (simp add: rows_sum_to_one_def list_all_length)
  have "\<forall>x\<in>set ?row. x \<le> row_max ?row" using spec by (auto simp: in_set_conv_nth)
  from sum_list_le_length_times[OF this] s len have "1 \<le> real k * row_max ?row" by simp
  then have lo: "1 / real k \<le> row_max ?row" using k by (simp add: divide_le_eq mult.commute)
  have "0 < 1 / real k" using k by simp
  with lo have pos: "0 < row_max ?row" by linarith
  have "row_argmax ?row < k" using spec len by simp
  from prob_entry_bounds[OF sh nn s1 r this] spec have hi: "row_max ?row \<le> 1" by simp
  show ?thesis using lo pos hi by (simp add: confidence_def)
qed

lemma bin_unique:
  assumes sh: "has_shape P n k" and nn: "nonneg_entries P" and s1: "rows_sum_to_one P"
    and r: "r < n" and k: "0 < k" and B: "0 < B"
  shows "\<exists>!i. i < B \<and> r \<in> bin_members P B i"
proof -
  have rn: "r < length (rows P)" using sh r by (simp add: has_shape_def)
  from confidence_bounds[OF sh nn s1 r k]
  have c: "0 < confidence P r" "confidence P r \<le> 1" by auto
  from bin_exists[OF B c] obtain i where i: "i < B" "r \<in> bin_members P B i"
    using rn by (auto simp: bin_members_def)
  show ?thesis
  proof (rule ex1I[of _ i])
    show "i < B \<and> r \<in> bin_members P B i" using i by simp
  next
    fix j assume j: "j < B \<and> r \<in> bin_members P B j"
    show "j = i"
    proof (rule ccontr)
      assume "j \<noteq> i"
      from bin_members_disjoint[OF this, of P B] i j show False by auto
    qed
  qed
qed

lemma bins_cover:
  assumes sh: "has_shape P n k" and nn: "nonneg_entries P" and s1: "rows_sum_to_one P"
    and k: "0 < k" and B: "0 < B"
  shows "(\<Union>i<B. bin_members P B i) = {..<n}"
proof
  show "(\<Union>i<B. bin_members P B i) \<subseteq> {..<n}"
    using bin_members_bounded[of P B] sh by (auto simp: has_shape_def)
next
  show "{..<n} \<subseteq> (\<Union>i<B. bin_members P B i)"
  proof
    fix r assume "r \<in> {..<n}"
    then have r: "r < n" by simp
    from bin_unique[OF sh nn s1 r k B] show "r \<in> (\<Union>i<B. bin_members P B i)" by auto
  qed
qed

lemma bin_weights_sum:
  assumes sh: "has_shape P n k" and nn: "nonneg_entries P" and s1: "rows_sum_to_one P"
    and k: "0 < k" and B: "0 < B" and n: "0 < n"
  shows "(\<Sum>i\<in>{i. i < B \<and> bin_members P B i \<noteq> {}}. real (card (bin_members P B i)) / real n) = 1"
proof -
  let ?w = "\<lambda>i. real (card (bin_members P B i)) / real n"
  have "(\<Sum>i\<in>{i. i < B \<and> bin_members P B i \<noteq> {}}. ?w i) = (\<Sum>i\<in>{..<B}. ?w i)"
    by (rule sum.mono_neutral_left) auto
  also have "\<dots> = real (\<Sum>i<B. card (bin_members P B i)) / real n"
    by (simp add: sum_divide_distrib)
  also have "(\<Sum>i<B. card (bin_members P B i)) = n"
    by (simp add: sum_card_bin_members bins_cover[OF sh nn s1 k B])
  finally show ?thesis using n by simp
qed

section \<open>Resampling and percentiles\<close>

lemma draw_props:
  "length (fst (draw G g n k)) = k \<and> (0 < n \<longrightarrow> (\<forall>j\<in>set (fst (draw G g n k)). j < n))"
proof (induction k arbitrary: g)
  case 0
  then show ?case by simp
next
  case (Suc k)
  obtain x g' where nb: "next_below G g n = (x, g')" by force
  obtain xs g'' where dr: "draw G g' n k = (xs, g'')" by force
  from Suc[of g'] dr have l: "length xs = k" and b: "0 < n \<longrightarrow> (\<forall>j\<in>set xs. j < n)" by auto
  have "fst (draw G g n (Suc k)) = x mod n # xs" by (simp add: nb dr)
  then show ?case using l b by auto
qed

lemma choice_props:
  assumes "vals \<noteq> []"
  shows "length (fst (choice G g vals)) = length vals \<and> set (fst (choice G g vals)) \<subseteq> set vals"
proof -
  obtain idx g' where d: "draw G g (length vals) (length vals) = (idx, g')" by force
  have n: "0 < length vals" using assms by simp
  from draw_props[of G g "length vals" "length vals"] d n
  have l: "length idx = length vals" and b: "\<forall>j\<in>set idx. j < length vals" by auto
  have c: "fst (choice G g vals) = map (\<lambda>j. vals ! j) idx" using assms d by (simp add: choice_def)
  show ?thesis using l b by (auto simp: c)
qed

lemma np_mean_sample:
  assumes "smp \<noteq> []"
  shows "\<exists>m. np_mean smp = Inr m \<and> ((\<forall>v\<in>set smp. v = c) \<longrightarrow> m = c)"
proof -
  have "sum_list smp = real (length smp) * c" if "\<forall>v\<in>set smp. v = c"
    using that by (induction smp) (auto simp: algebra_simps)
  then show ?thesis using assms by (auto simp: np_mean_def)
qed

lemma boot_loop_props:
  assumes "vals \<noteq> []"
  shows "length (boot_loop G g vals k) = k \<and>
         (\<forall>b\<in>set (boot_loop G g vals k). \<exists>m. b = Inr m \<and> ((\<forall>v\<in>set vals. v = c) \<longrightarrow> m = c))"
proof (induction k arbitrary: g)
  case 0
  then show ?case by simp
next
  case (Suc k)
  obtain smp g' where ch: "choice G g vals = (smp, g')" by force
  from choice_props[OF assms, of G g] ch
  have l: "length smp = length vals" and s: "set smp \<subseteq> set vals" by auto
  have ne: "smp \<noteq> []" using l assms by auto
  from np_mean_sample[OF ne, of c] obtain m where m: "np_mean smp = Inr m"
    "(\<forall>v\<in>set smp. v = c) \<longrightarrow> m = c" by auto
  have "(\<forall>v\<in>set vals. v = c) \<longrightarrow> m = c" using m(2) s by blast
  with m(1) Suc[of g'] ch show ?case by auto
qed

lemma linear_quantile_between:
  assumes srt: "sorted a" and ne: "a \<noteq> []" and p: "0 \<le> p" "p \<le> 1"
  shows "a ! nat \<lfloor>(real (length a) - 1) * p\<rfloor> \<le> linear_quantile a p \<and>
         linear_quantile a p \<le> a ! min (nat \<lfloor>(real (length a) - 1) * p\<rfloor> + 1) (length a - 1)"
proof -
  let ?h = "(real (length a) - 1) * p"
  let ?i = "nat \<lfloor>?h\<rfloor>"
  let ?j = "min (?i + 1) (length a - 1)"
  have n1: "1 \<le> real (length a)" using ne by (cases a) auto
  have h0: "0 \<le> ?h" using n1 p by simp
  have hm: "?h \<le> real (length a) - 1" using n1 p by (simp add: mult_left_le)
  have ri: "real ?i = of_int \<lfloor>?h\<rfloor>" using h0 by simp
  have g0: "0 \<le> ?h - real ?i" unfolding ri by linarith
  have g1: "?h - real ?i \<le> 1" unfolding ri by linarith
  have "\<lfloor>?h\<rfloor> \<le> int (length a) - 1" using hm by (simp add: floor_le_iff) linarith
  then have il: "?i \<le> length a - 1" by linarith
  have jl: "?j < length a" using ne by (cases a) auto
  have ij: "?i \<le> ?j" using il by simp
  have d: "a ! ?i \<le> a ! ?j" by (rule sorted_nth_mono[OF srt ij jl])
  have lq: "linear_quantile a p = a ! ?i + (a ! ?j - a ! ?i) * (?h - real ?i)"
    by (simp add: linear_quantile_def Let_def)
  have lo: "0 \<le> (a ! ?j - a ! ?i) * (?h - real ?i)" using d g0 by simp
  have "(a ! ?j - a ! ?i) * (?h - real ?i) \<le> (a ! ?j - a ! ?i) * 1"
    by (rule mult_left_mono[OF g1]) (use d in simp)
  then show ?thesis unfolding lq using lo by simp
qed

lemma linear_quantile_mono:
  assumes srt: "sorted a" and ne: "a \<noteq> []" and p: "0 \<le> p" "p \<le> q" "q \<le> 1"
  shows "linear_quantile a p \<le> linear_quantile a q"
proof -
  let ?n = "real (length a) - 1"
  let ?hp = "?n * p" and ?hq = "?n * q"
  let ?ip = "nat \<lfloor>?hp\<rfloor>" and ?iq = "nat \<lfloor>?hq\<rfloor>"
  have n1: "0 \<le> ?n" using ne by (cases a) auto
  have hpq: "?hp \<le> ?hq" using n1 p by (simp add: mult_left_mono)
  have h0: "0 \<le> ?hp" using n1 p by simp
  have ipq: "?ip \<le> ?iq" using hpq by (simp add: floor_mono nat_mono)
  have q0: "0 \<le> q" using p by simp
  have p1: "p \<le> 1" using p by simp
  note bp = linear_quantile_between[OF srt ne p(1) p1]
  note bq = linear_quantile_between[OF srt ne q0 p(3)]
  show ?thesis
  proof (cases "?ip = ?iq")
    case True
    let ?j = "min (?ip + 1) (length a - 1)"
    have jl: "?j < length a" using ne by (cases a) auto
    have "\<lfloor>?hp\<rfloor> \<le> int (length a) - 1"
    proof -
      have "?hp \<le> ?n" using n1 p1 by (simp add: mult_left_le)
      then show ?thesis by (simp add: floor_le_iff) linarith
    qed
    then have "?ip \<le> ?j" by linarith
    then have d: "a ! ?ip \<le> a ! ?j" by (rule sorted_nth_mono[OF srt _ jl])
    have "linear_quantile a q - linear_quantile a p = (a ! ?j - a ! ?ip) * (?hq - ?hp)"
      using True by (simp add: linear_quantile_def Let_def algebra_simps)
    moreover have "0 \<le> (a ! ?j - a ! ?ip) * (?hq - ?hp)" using d hpq by simp
    ultimately show ?thesis by linarith
  next
    case False
    with ipq have lt: "?ip + 1 \<le> ?iq" by simp
    have "\<lfloor>?hq\<rfloor> \<le> int (length a) - 1"
    proof -
      have "?hq \<le> ?n" using n1 p(3) by (simp add: mult_left_le)
      then show ?thesis by (simp add: floor_le_iff) linarith
    qed
    then have iql: "?iq \<le> length a - 1" by linarith
    have iqlt: "?iq < length a" using iql ne by (cases a) auto
    have "min (?ip + 1) (length a - 1) \<le> ?iq" using lt by simp
    then have "a ! min (?ip + 1) (length a - 1) \<le> a ! ?iq" by (rule sorted_nth_mono[OF srt _ iqlt])
    with bp bq show ?thesis by linarith
  qed
qed

lemma linear_quantile_const:
  assumes ne: "a \<noteq> []" and c: "\<forall>v\<in>set a. v = c" and p: "0 \<le> p" "p \<le> 1"
  shows "linear_quantile a p = c"
proof -
  let ?h = "(real (length a) - 1) * p"
  let ?i = "nat \<lfloor>?h\<rfloor>"
  let ?j = "min (?i + 1) (length a - 1)"
  have n1: "1 \<le> real (length a)" using ne by (cases a) auto
  have hm: "?h \<le> real (length a) - 1" using n1 p by (simp add: mult_left_le)
  have "\<lfloor>?h\<rfloor> \<le> int (length a) - 1" using hm by (simp add: floor_le_iff) linarith
  moreover have "0 < length a" using ne by simp
  ultimately have il: "?i < length a" by linarith
  have jl: "?j < length a" using ne by (cases a) auto
  have "a ! ?i = c" "a ! ?j = c" using c il jl by (auto simp del: min_less_iff_conj)
  then show ?thesis by (simp add: linear_quantile_def Let_def)
qed

section \<open>Claims\<close>

text \<open>
  C1, amended. For every non-empty \<open>y_true\<close>, every list of distinct classes and every
  probability matrix of their shape with non-negative entries and rows that sum to 1,
  \<^verbatim>\<open>multiclass_brier\<close> returns the mean over the classes of the mean squared
  error between the indicator of the class and its column; the value lies in \<open>[0, 1]\<close>,
  and it is 0 exactly when every row is the one-hot vector of its true label.
\<close>

theorem multiclass_brier_correct:
  assumes sh: "has_shape P (length y_true) (length classes)" and d: "distinct classes"
    and nn: "nonneg_entries P" and s1: "rows_sum_to_one P" and ne: "y_true \<noteq> []"
  shows "multiclass_brier y_true P classes = Inr (brier_spec y_true P classes) \<and>
         0 \<le> brier_spec y_true P classes \<and> brier_spec y_true P classes \<le> 1 \<and>
         (brier_spec y_true P classes = 0 \<longleftrightarrow>
            list_all2 (one_hot_on_label classes) y_true (rows P))"
proof -
  have n: "length (rows P) = length y_true" using sh by (simp add: has_shape_def)
  have rs: "sum_list (rows P ! r) = 1" if "r < length y_true" for r
    using s1 that n by (simp add: rows_sum_to_one_def list_all_length)
  have rl: "length (rows P ! r) = length classes" if "r < length y_true" for r
    using has_shape_row[OF sh that] .
  have cne: "classes \<noteq> []"
  proof
    assume "classes = []"
    moreover have "0 < length y_true" using ne by simp
    ultimately have "rows P ! 0 = []" using rl[of 0] by simp
    with rs[of 0] \<open>0 < length y_true\<close> show False by simp
  qed
  have bd: "\<forall>r<length y_true. \<forall>j<length classes. 0 \<le> rows P ! r ! j \<and> rows P ! r ! j \<le> 1"
    using prob_entry_bounds[OF sh nn s1] by blast
  have oh: "one_hot_on_label classes (y_true ! r) (rows P ! r) \<longleftrightarrow>
            (\<forall>c<length classes. rows P ! r ! c = indicator_of y_true classes r c)"
    if "r < length y_true" for r
    unfolding indicator_of_def by (rule one_hot_on_label_iff[OF d rl[OF that] rs[OF that]])
  have "brier_spec y_true P classes = 0 \<longleftrightarrow>
        (\<forall>r<length y_true. one_hot_on_label classes (y_true ! r) (rows P ! r))"
    using brier_spec_zero_iff[OF ne cne bd] oh by simp
  also have "\<dots> \<longleftrightarrow> list_all2 (one_hot_on_label classes) y_true (rows P)"
    using n by (simp add: list_all2_conv_all_nth)
  finally have z: "brier_spec y_true P classes = 0 \<longleftrightarrow>
        list_all2 (one_hot_on_label classes) y_true (rows P)" .
  show ?thesis
    using multiclass_brier_eq_spec[OF sh ne cne bd] brier_spec_bounds[OF ne cne bd] z by simp
qed

theorem multiclass_brier_correct_witness:
  "has_shape \<lparr>ncols = 2, rows = [[9/10, 1/10], [4/5, 1/5], [1/5, 4/5], [1/10, 9/10]]\<rparr>
      (length [''A'', ''A'', ''B'', ''B'']) (length [''A'', ''B'']) \<and>
   distinct [''A'', ''B''] \<and>
   nonneg_entries \<lparr>ncols = 2, rows = [[9/10, 1/10], [4/5, 1/5], [1/5, 4/5], [1/10, 9/10]]\<rparr> \<and>
   rows_sum_to_one \<lparr>ncols = 2, rows = [[9/10, 1/10], [4/5, 1/5], [1/5, 4/5], [1/10, 9/10]]\<rparr> \<and>
   multiclass_brier [''A'', ''A'', ''B'', ''B'']
      \<lparr>ncols = 2, rows = [[9/10, 1/10], [4/5, 1/5], [1/5, 4/5], [1/10, 9/10]]\<rparr> [''A'', ''B'']
     = Inr (1/40)"
proof -
  let ?P = "\<lparr>ncols = 2, rows = [[9/10, 1/10], [4/5, 1/5], [1/5, 4/5], [1/10, 9/10 :: real]]\<rparr>"
  let ?y = "[''A'', ''A'', ''B'', ''B'']"
  let ?cs = "[''A'', ''B'']"
  have sh: "has_shape ?P (length ?y) (length ?cs)" by (simp add: has_shape_def is_ndarray_def)
  have d: "distinct ?cs" by simp
  have nn: "nonneg_entries ?P" by (simp add: nonneg_entries_def)
  have s1: "rows_sum_to_one ?P" by (simp add: rows_sum_to_one_def)
  have ne: "?y \<noteq> []" by simp
  have v: "brier_spec ?y ?P ?cs = 1/40"
    by (simp add: brier_spec_def class_mse_def indicator_of_def lessThan_Suc power2_eq_square)
  from multiclass_brier_correct[OF sh d nn s1 ne] v sh d nn s1 show ?thesis by simp
qed

text \<open>
  C1 as stated, for every \<open>y_true\<close> and every class list, fails on the empty
  \<open>y_true\<close>: scikit-learn rejects the empty column, and no value in \<open>[0, 1]\<close> is
  returned. It also fails for a class list that names a class twice: the row \<open>[1, 0]\<close> is
  one-hot on the true label, and the score is 1/2.
\<close>

theorem multiclass_brier_empty_counterexample:
  "has_shape \<lparr>ncols = 1, rows = []\<rparr> (length ([] :: string list)) (length [''A'']) \<and>
   nonneg_entries \<lparr>ncols = 1, rows = []\<rparr> \<and> rows_sum_to_one \<lparr>ncols = 1, rows = []\<rparr> \<and>
   multiclass_brier ([] :: string list) \<lparr>ncols = 1, rows = []\<rparr> [''A''] = Inl ValueError \<and>
   has_shape \<lparr>ncols = 2, rows = [[1, 0]]\<rparr> (length [''A'']) (length [''A'', ''A'']) \<and>
   nonneg_entries \<lparr>ncols = 2, rows = [[1, 0]]\<rparr> \<and> rows_sum_to_one \<lparr>ncols = 2, rows = [[1, 0]]\<rparr> \<and>
   multiclass_brier [''A''] \<lparr>ncols = 2, rows = [[1, 0]]\<rparr> [''A'', ''A''] = Inr (1/2) \<and>
   list_all2 (one_hot_on_label [''A'', ''A'']) [''A''] (rows \<lparr>ncols = 2, rows = [[1, 0]]\<rparr>)"
  by (simp add: has_shape_def is_ndarray_def nonneg_entries_def rows_sum_to_one_def
      multiclass_brier_def column_def brier_score_loss_def binarize_def np_mean_def
      one_hot_on_label_def one_hot_def upt_conv_Cons)

text \<open>
  C2. For every \<open>y_true\<close> and every probability matrix of the shape of the labels and
  the (non-empty) class list, and every number of bins, \<^verbatim>\<open>expected_calibration_error\<close>
  returns a value in \<open>[0, 1]\<close>; when in every row the class at the argmax is the true
  label and the maximum is 1, the value is 0. The bounds do not need the rows to sum to 1.
\<close>

theorem expected_calibration_error_bounds:
  assumes sh: "has_shape P (length y_true) (length classes)" and cne: "classes \<noteq> []"
    and b: "0 \<le> bins"
  shows "\<exists>e. expected_calibration_error y_true P classes bins = Inr e \<and> 0 \<le> e \<and> e \<le> 1 \<and>
           ((\<forall>r<length y_true. classes ! row_argmax (rows P ! r) = y_true ! r \<and>
                                row_max (rows P ! r) = 1) \<longrightarrow> e = 0)"
proof -
  have n: "length (rows P) = length y_true" using sh by (simp add: has_shape_def)
  have eq: "expected_calibration_error y_true P classes bins = Inr (ece_spec y_true P classes (nat bins))"
    by (rule expected_calibration_error_eq_spec[OF sh cne]) (use b in simp)
  have z: "ece_spec y_true P classes (nat bins) = 0"
    if "\<forall>r<length y_true. classes ! row_argmax (rows P ! r) = y_true ! r \<and> row_max (rows P ! r) = 1"
    by (rule ece_spec_perfect) (use that n in \<open>simp add: is_correct_def confidence_def\<close>)
  show ?thesis using eq ece_spec_bounds[of y_true P classes "nat bins"] z by blast
qed

theorem expected_calibration_error_bounds_witness:
  "has_shape \<lparr>ncols = 2, rows = [[9/10, 1/10], [4/5, 1/5], [1/5, 4/5], [1/10, 9/10]]\<rparr>
      (length [''A'', ''A'', ''B'', ''B'']) (length [''A'', ''B'']) \<and>
   [''A'', ''B''] \<noteq> [] \<and> (0::int) \<le> 15 \<and>
   (\<exists>e. expected_calibration_error [''A'', ''A'', ''B'', ''B'']
          \<lparr>ncols = 2, rows = [[9/10, 1/10], [4/5, 1/5], [1/5, 4/5], [1/10, 9/10]]\<rparr> [''A'', ''B''] 15
        = Inr e \<and> 0 \<le> e \<and> e \<le> 1)"
proof -
  let ?P = "\<lparr>ncols = 2, rows = [[9/10, 1/10], [4/5, 1/5], [1/5, 4/5], [1/10, 9/10 :: real]]\<rparr>"
  have sh: "has_shape ?P (length [''A'', ''A'', ''B'', ''B'']) (length [''A'', ''B''])"
    by (simp add: has_shape_def is_ndarray_def)
  have cne: "[''A'', ''B''] \<noteq> []" by simp
  have b: "(0::int) \<le> 15" by simp
  from expected_calibration_error_bounds[OF sh cne b] sh show ?thesis by auto
qed

lemma scenario2_ece:
  "expected_calibration_error [''A'', ''A'', ''B'', ''B'']
          \<lparr>ncols = 2, rows = [[9/10, 1/10], [4/5, 1/5], [1/5, 4/5], [1/10, 9/10]]\<rparr> [''A'', ''B''] 15
   = Inr (3/20)"
  by (simp add: expected_calibration_error_def amax_axis1_def predicted_labels_def argmax_axis1_def
      take_indices_def elementwise_eq_def linspace01_def ece_bin_def bin_mask_def select_def
      mean_bool_def mean_real_def Let_def upt_conv_Cons)

text \<open>
  C3. With \<open>B\<close> bins, \<^verbatim>\<open>expected_calibration_error\<close> cuts \<open>[0, 1]\<close> at the points
  \<open>i/B\<close> and sorts the samples by their confidence, the row maximum, into the half-open
  bins \<open>(i/B, (i+1)/B]\<close>; it returns the sum of the bin contributions, where an empty bin
  contributes 0 and a non-empty one the absolute gap between mean correctness and mean
  confidence, weighted by the bin's share of all samples. A sample of confidence exactly 0
  is in no bin, and so in no term of the sum.
\<close>

theorem expected_calibration_error_binning:
  assumes sh: "has_shape P (length y_true) (length classes)" and cne: "classes \<noteq> []"
    and b: "0 \<le> bins"
  shows "expected_calibration_error y_true P classes bins
           = Inr (ece_spec y_true P classes (nat bins)) \<and>
         (0 < bins \<longrightarrow> (\<forall>i\<le>nat bins. linspace01 (nat (bins + 1)) ! i = real i / real (nat bins))) \<and>
         (\<forall>r<length y_true. confidence P r = 0 \<longrightarrow>
            (\<forall>i<nat bins. r \<notin> bin_members P (nat bins) i))"
proof -
  have eq: "expected_calibration_error y_true P classes bins = Inr (ece_spec y_true P classes (nat bins))"
    by (rule expected_calibration_error_eq_spec[OF sh cne]) (use b in simp)
  have lin: "linspace01 (nat (bins + 1)) ! i = real i / real (nat bins)"
    if "0 < bins" "i \<le> nat bins" for i
  proof -
    have s: "nat (bins + 1) = Suc (nat bins)" using that(1) by simp
    have "0 < nat bins" using that(1) by simp
    from linspace01_nth[OF this that(2)] show ?thesis by (simp only: s)
  qed
  have z: "r \<notin> bin_members P (nat bins) i" if "confidence P r = 0" for r i
  proof
    assume "r \<in> bin_members P (nat bins) i"
    then have "real i / real (nat bins) < confidence P r" by (simp add: bin_members_def)
    then have "real i / real (nat bins) < 0" using that by simp
    moreover have "0 \<le> real i / real (nat bins)" by (rule divide_nonneg_nonneg) simp_all
    ultimately show False by (meson not_less)
  qed
  show ?thesis using eq lin z by blast
qed

theorem expected_calibration_error_binning_witness:
  "has_shape \<lparr>ncols = 2, rows = [[0, 0], [1/2, 1/2]]\<rparr> (length [''A'', ''B'']) (length [''A'', ''B'']) \<and>
   [''A'', ''B''] \<noteq> [] \<and> (0::int) \<le> 2 \<and>
   confidence \<lparr>ncols = 2, rows = [[0, 0], [1/2, 1/2]]\<rparr> 0 = 0 \<and>
   0 \<notin> bin_members \<lparr>ncols = 2, rows = [[0, 0], [1/2, 1/2]]\<rparr> 2 0 \<and>
   0 \<notin> bin_members \<lparr>ncols = 2, rows = [[0, 0], [1/2, 1/2]]\<rparr> 2 1 \<and>
   ece_spec [''A'', ''B''] \<lparr>ncols = 2, rows = [[0, 0], [1/2, 1/2]]\<rparr> [''A'', ''B''] 2 = 1/4"
proof -
  let ?P = "\<lparr>ncols = 2, rows = [[0, 0], [1/2, 1/2 :: real]]\<rparr>"
  let ?y = "[''A'', ''B'']"
  have sh: "has_shape ?P (length ?y) (length ?y)" by (simp add: has_shape_def is_ndarray_def)
  have cne: "?y \<noteq> []" by simp
  have b: "(0::int) \<le> 2" by simp
  have c0: "confidence ?P 0 = 0" by (simp add: confidence_def)
  have v: "expected_calibration_error ?y ?P ?y 2 = Inr (1/4)"
    by (simp add: expected_calibration_error_def amax_axis1_def predicted_labels_def argmax_axis1_def
      take_indices_def elementwise_eq_def linspace01_def ece_bin_def bin_mask_def select_def
      mean_bool_def mean_real_def Let_def upt_conv_Cons)
  note t = expected_calibration_error_binning[OF sh cne b]
  have e: "ece_spec ?y ?P ?y 2 = 1/4" using t v by simp
  have m0: "0 \<notin> bin_members ?P 2 0" using t c0 by (simp del: One_nat_def)
  have m1: "0 \<notin> bin_members ?P 2 1" using t c0 by (simp del: One_nat_def)
  show ?thesis using sh c0 e m0 m1 by simp
qed

section \<open>What evaluate does on a matrix of another shape\<close>

lemma predicted_labels_length:
  assumes "predicted_labels P classes = Inr preds"
  shows "length preds = length (rows P)"
  using assms
  by (auto simp: predicted_labels_def argmax_axis1_def take_indices_def split: if_splits)

lemma brier_scores_short_matrix:
  assumes "i \<le> ncols P" and "ncols P < i + length cs"
  shows "brier_scores y_true P (enumerate i cs) = Inl ValueError \<or>
         brier_scores y_true P (enumerate i cs) = Inl IndexError"
  using assms
proof (induction cs arbitrary: i)
  case Nil
  then show ?case by simp
next
  case (Cons c cs)
  show ?case
  proof (cases "i < ncols P")
    case False
    then show ?thesis by (simp add: column_def)
  next
    case True
    then have "Suc i \<le> ncols P" "ncols P < Suc i + length cs" using Cons.prems by simp_all
    from Cons.IH[OF this] show ?thesis
      by (auto simp: column_def brier_score_loss_def split: sum.splits)
  qed
qed

lemma multiclass_brier_short_matrix:
  assumes "ncols P < length classes"
  shows "multiclass_brier y_true P classes = Inl ValueError \<or>
         multiclass_brier y_true P classes = Inl IndexError"
  using brier_scores_short_matrix[where P=P and i=0 and cs=classes and y_true=y_true] assms
  by (auto simp: multiclass_brier_def)

lemma predicted_labels_error_kinds:
  assumes "predicted_labels P classes = Inl e"
  shows "e = ValueError \<or> e = IndexError"
  using assms
  by (auto simp: predicted_labels_def argmax_axis1_def take_indices_def split: if_splits)

lemma classification_report_error_kinds:
  assumes "classification_report y_true y_pred = Inl e"
  shows "e = ValueError"
  using assms by (auto simp: classification_report_def Let_def split: if_splits)

lemma confusion_matrix_error_kinds:
  assumes "confusion_matrix y_true y_pred labels = Inl e"
  shows "e = ValueError"
  using assms by (auto simp: confusion_matrix_def Let_def split: if_splits)

text \<open>
  C6, amended. \<^verbatim>\<open>evaluate\<close> checks no shape itself and knows no ShapeMismatchError.
  For every matrix whose row count differs from the label count, or whose column count
  is smaller than the length of the class list, it fails with the ValueError or the
  IndexError of the library call that meets the mismatch, and produces no result.
\<close>

theorem evaluate_shape_mismatch_fails:
  assumes "length (rows P) \<noteq> length y_true \<or> ncols P < length classes"
  shows "evaluate y_true P classes = Inl ValueError \<or> evaluate y_true P classes = Inl IndexError"
proof (cases "predicted_labels P classes")
  case (Inl e)
  with predicted_labels_error_kinds[OF Inl] show ?thesis by (auto simp: evaluate_def)
next
  case preds: (Inr preds)
  note len = predicted_labels_length[OF preds]
  show ?thesis
  proof (cases "classification_report y_true preds")
    case (Inl e)
    with classification_report_error_kinds[OF Inl] preds show ?thesis by (simp add: evaluate_def)
  next
    case rpt: (Inr rpt)
    then have eq: "length y_true = length preds"
      by (auto simp: classification_report_def split: if_splits)
    with len assms have short: "ncols P < length classes" by simp
    show ?thesis
    proof (cases "confusion_matrix y_true preds classes")
      case (Inl e)
      with confusion_matrix_error_kinds[OF Inl] preds rpt show ?thesis by (simp add: evaluate_def)
    next
      case cm: (Inr cm)
      from multiclass_brier_short_matrix[OF short, of y_true] preds rpt cm
      show ?thesis by (auto simp: evaluate_def)
    qed
  qed
qed

theorem evaluate_shape_mismatch_fails_witness:
  "length (rows \<lparr>ncols = 2, rows = [[9/10, 1/10]]\<rparr>) < length [''A'', ''B''] \<and>
   evaluate [''A'', ''B''] \<lparr>ncols = 2, rows = [[9/10, 1/10]]\<rparr> [''A'', ''B''] = Inl ValueError"
proof -
  let ?P = "\<lparr>ncols = 2, rows = [[9/10, 1/10 :: real]]\<rparr>"
  have h: "length (rows ?P) \<noteq> length [''A'', ''B''] \<or> ncols ?P < length [''A'', ''B'']" by simp
  have "evaluate [''A'', ''B''] ?P [''A'', ''B''] \<noteq> Inl IndexError"
    by (simp add: evaluate_def predicted_labels_def argmax_axis1_def take_indices_def
        classification_report_def)
  with evaluate_shape_mismatch_fails[OF h] show ?thesis by auto
qed

text \<open>
  C6 as stated fails for a matrix with more columns than classes: the class at each
  argmax exists, the Brier score reads the first columns, and a result is returned.
\<close>

theorem evaluate_shape_mismatch_counterexample:
  "ncols \<lparr>ncols = 3, rows = [[3/5, 3/10, 1/10], [1/5, 7/10, 1/10]]\<rparr> \<noteq> length [''A'', ''B''] \<and>
   (\<exists>res. evaluate [''A'', ''B''] \<lparr>ncols = 3, rows = [[3/5, 3/10, 1/10], [1/5, 7/10, 1/10]]\<rparr> [''A'', ''B'']
            = Inr res \<and> brier res = 19/200 \<and> ece res = 7/20 \<and> confusion res = [[1, 0], [0, 1]])"
proof -
  let ?P = "\<lparr>ncols = 3, rows = [[3/5, 3/10, 1/10], [1/5, 7/10, 1/10 :: real]]\<rparr>"
  let ?y = "[''A'', ''B'']"
  have p: "predicted_labels ?P ?y = Inr ?y"
    by (simp add: predicted_labels_def argmax_axis1_def take_indices_def)
  have r: "\<exists>rpt. classification_report ?y ?y = Inr rpt"
    by (simp add: classification_report_def Let_def)
  have c: "confusion_matrix ?y ?y ?y = Inr [[1, 0], [0, 1]]"
    by (simp add: confusion_matrix_def Let_def label_to_ind_def upt_conv_Cons)
  have b: "multiclass_brier ?y ?P ?y = Inr (19/200)"
    by (simp add: multiclass_brier_def column_def brier_score_loss_def binarize_def np_mean_def
        power2_eq_square)
  have e: "expected_calibration_error ?y ?P ?y 15 = Inr (7/20)"
    by (simp add: expected_calibration_error_def amax_axis1_def p elementwise_eq_def
        linspace01_def ece_bin_def bin_mask_def select_def mean_bool_def mean_real_def Let_def
        upt_conv_Cons)
  from r obtain rpt where rpt: "classification_report ?y ?y = Inr rpt" by blast
  have "evaluate ?y ?P ?y = Inr \<lparr>report = rpt, confusion = [[1, 0], [0, 1]], ece = 7/20, brier = 19/200\<rparr>"
    by (simp add: evaluate_def p rpt c b e)
  then show ?thesis by simp
qed

text \<open>
  C8, on the code. \<^verbatim>\<open>evaluate\<close> passes the class list to the confusion matrix but not
  to the classification report, so the report has entries only for the labels that occur
  among the true and the predicted labels. With classes \<open>A, B, C\<close> and two samples of
  true and predicted labels \<open>A, B\<close>, the report has no entry for \<open>C\<close>, and its macro
  average of F1 is the mean over \<open>A\<close> and \<open>B\<close>, 1, not the mean over the three classes.
\<close>

theorem evaluate_report_omits_absent_class:
  "\<exists>res. evaluate [''A'', ''B''] \<lparr>ncols = 3, rows = [[9/10, 1/20, 1/20], [1/10, 4/5, 1/10]]\<rparr>
            [''A'', ''B'', ''C''] = Inr res \<and>
         per_class (report res) ''C'' = None \<and>
         per_class (report res) ''A'' = Some \<lparr>precision = 1, recall = 1, f1_score = 1, support = 1\<rparr> \<and>
         f1_score (macro_avg (report res)) = 1 \<and>
         accuracy (report res) = 1 \<and>
         length (confusion res) = 3"
proof -
  let ?P = "\<lparr>ncols = 3, rows = [[9/10, 1/20, 1/20], [1/10, 4/5, 1/10 :: real]]\<rparr>"
  let ?y = "[''A'', ''B'']"
  let ?cs = "[''A'', ''B'', ''C'']"
  have p: "predicted_labels ?P ?cs = Inr ?y"
    by (simp add: predicted_labels_def argmax_axis1_def take_indices_def)
  have labels: "present_labels ?y ?y = ?y" by (simp add: present_labels_def)
  have mA: "metrics_of ?y ?y ''A'' = \<lparr>precision = 1, recall = 1, f1_score = 1, support = 1\<rparr>"
    by (simp add: metrics_of_def true_positives_def zero_division_def Let_def)
  have mB: "metrics_of ?y ?y ''B'' = \<lparr>precision = 1, recall = 1, f1_score = 1, support = 1\<rparr>"
    by (simp add: metrics_of_def true_positives_def zero_division_def Let_def)
  obtain rpt where rpt: "classification_report ?y ?y = Inr rpt"
    and r1: "per_class rpt ''C'' = None"
    and r2: "per_class rpt ''A'' = Some \<lparr>precision = 1, recall = 1, f1_score = 1, support = 1\<rparr>"
    and r3: "f1_score (macro_avg rpt) = 1" and r4: "accuracy rpt = 1"
    by (simp add: classification_report_def Let_def labels mA mB macro_average_def)
  obtain cm where cm: "confusion_matrix ?y ?y ?cs = Inr cm" and lcm: "length cm = 3"
    by (simp add: confusion_matrix_def Let_def)
  have b: "multiclass_brier ?y ?P ?cs = Inr (1/80)"
    by (simp add: multiclass_brier_def column_def brier_score_loss_def binarize_def np_mean_def
        power2_eq_square)
  have sh: "has_shape ?P (length ?y) (length ?cs)" by (simp add: has_shape_def is_ndarray_def)
  have "expected_calibration_error ?y ?P ?cs 15 = Inr (ece_spec ?y ?P ?cs (nat 15))"
    by (rule expected_calibration_error_eq_spec[OF sh]) simp_all
  then obtain c where c: "expected_calibration_error ?y ?P ?cs 15 = Inr c" by blast
  have "evaluate ?y ?P ?cs = Inr \<lparr>report = rpt, confusion = cm, ece = c, brier = 1/80\<rparr>"
    by (simp add: evaluate_def p rpt cm b c)
  then show ?thesis using r1 r2 r3 r4 lcm by simp
qed

section \<open>When the stratified split fails\<close>

lemma set_first_seen: "set (first_seen y) = set y"
  by (simp add: first_seen_def)

lemma count_list_le_length: "count_list y c \<le> length y"
  by (induction y) auto

text \<open>
  C7, amended. For every label sequence and every fold count \<open>k \<ge> 2\<close>: when every
  class has fewer than \<open>k\<close> members the split fails with scikit-learn's ValueError and
  returns no split; when some class has at least \<open>k\<close> members it returns \<open>k\<close> folds, with
  a warning exactly when some other class has fewer than \<open>k\<close> members. There is no
  InsufficientSamplesError.
\<close>

theorem stratified_kfold_split_failure:
  assumes k: "2 \<le> k"
  shows "((\<forall>c\<in>set y. count_list y c < nat k) \<longrightarrow> stratified_kfold_split G y k = Inl ValueError) \<and>
         ((\<exists>c\<in>set y. nat k \<le> count_list y c) \<longrightarrow>
            (\<exists>w folds. stratified_kfold_split G y k = Inr (w, folds) \<and> length folds = nat k \<and>
                        (w = [] \<longleftrightarrow> (\<forall>c\<in>set y. nat k \<le> count_list y c))))"
proof (intro conjI impI)
  assume "\<forall>c\<in>set y. count_list y c < nat k"
  then have "list_all (\<lambda>c. c < nat k) (map (count_list y) (first_seen y))"
    by (simp add: list_all_iff set_first_seen)
  then show "stratified_kfold_split G y k = Inl ValueError"
    by (simp add: stratified_kfold_split_def Let_def)
next
  assume "\<exists>c\<in>set y. nat k \<le> count_list y c"
  then obtain c where c: "c \<in> set y" "nat k \<le> count_list y c" by blast
  have len: "\<not> length y < nat k" using c(2) count_list_le_length[of y c] by simp
  have nall: "\<not> list_all (\<lambda>c. c < nat k) (map (count_list y) (first_seen y))"
  proof
    assume "list_all (\<lambda>c. c < nat k) (map (count_list y) (first_seen y))"
    then have "count_list y c < nat k" using c(1) by (simp add: list_all_iff set_first_seen)
    with c(2) show False by simp
  qed
  have k1: "\<not> k \<le> 1" using k by simp
  have ex: "list_ex (\<lambda>c. c < nat k) (map (count_list y) (first_seen y))
            \<longleftrightarrow> \<not> (\<forall>c\<in>set y. nat k \<le> count_list y c)"
    by (auto simp: list_ex_iff set_first_seen not_le)
  show "\<exists>w folds. stratified_kfold_split G y k = Inr (w, folds) \<and> length folds = nat k \<and>
                  (w = [] \<longleftrightarrow> (\<forall>c\<in>set y. nat k \<le> count_list y c))"
    using len nall k1 ex by (simp add: stratified_kfold_split_def Let_def)
qed

theorem stratified_kfold_split_failure_witness:
  "(2::int) \<le> 5 \<and>
   stratified_kfold_split counting_generator [''A'', ''A'', ''B'', ''B'', ''B'', ''B''] 5 = Inl ValueError"
proof -
  have k: "(2::int) \<le> 5" by simp
  have "\<forall>c\<in>set [''A'', ''A'', ''B'', ''B'', ''B'', ''B'']. count_list [''A'', ''A'', ''B'', ''B'', ''B'', ''B''] c < nat 5"
    by simp
  with stratified_kfold_split_failure[OF k, of "[''A'', ''A'', ''B'', ''B'', ''B'', ''B'']" counting_generator]
  have "stratified_kfold_split counting_generator [''A'', ''A'', ''B'', ''B'', ''B'', ''B''] 5 = Inl ValueError"
    by blast
  with k show ?thesis by (rule conjI)
qed

text \<open>
  C7 as stated fails when only one class is too small: with two samples of class \<open>A\<close>,
  five of class \<open>B\<close> and five folds, the split warns and returns five uneven folds, three
  of them without a sample of \<open>A\<close>.
\<close>

theorem stratified_kfold_split_counterexample:
  "count_list [''A'', ''A'', ''B'', ''B'', ''B'', ''B'', ''B''] ''A'' < nat 5 \<and>
   stratified_kfold_split counting_generator [''A'', ''A'', ''B'', ''B'', ''B'', ''B'', ''B''] 5
     = Inr ([LeastPopulatedClass 2],
            [([1, 3, 4, 5, 6], [0, 2]), ([0, 2, 3, 4, 5], [1, 6]), ([0, 1, 2, 3, 4, 6], [5]),
             ([0, 1, 2, 4, 5, 6], [3]), ([0, 1, 2, 3, 5, 6], [4])])"
  by code_simp

section \<open>The interval of the bootstrap\<close>

lemma stream_state_Suc:
  "stream_state G n g (Suc k) = stream_state G n (snd (next_below G g n)) k"
  by (simp only: stream_state_def funpow_Suc_right o_apply)

lemma stream_index_Suc:
  "stream_index G n g (Suc k) = stream_index G n (snd (next_below G g n)) k"
  by (simp add: stream_index_def stream_state_Suc)

lemma stream_state_add:
  "stream_state G n (stream_state G n g m) k = stream_state G n g (m + k)"
  by (simp add: stream_state_def funpow_add add.commute)

lemma stream_index_add:
  "stream_index G n (stream_state G n g m) k = stream_index G n g (m + k)"
  by (simp add: stream_index_def stream_state_add)

lemma draw_stream:
  "draw G g n k = (map (stream_index G n g) [0..<k], stream_state G n g k)"
proof (induction k arbitrary: g)
  case 0
  then show ?case by (simp add: stream_state_def)
next
  case (Suc k)
  obtain x g' where nb: "next_below G g n = (x, g')" by force
  have g': "snd (next_below G g n) = g'" and x: "fst (next_below G g n) = x" using nb by simp_all
  have i0: "stream_index G n g 0 = x mod n" by (simp add: stream_index_def stream_state_def x)
  have "map (stream_index G n g) [0..<Suc k]
      = stream_index G n g 0 # map (stream_index G n g) (map Suc [0..<k])"
    by (simp only: map_Suc_upt upt_conv_Cons[OF zero_less_Suc] list.map)
  also have "\<dots> = x mod n # map (stream_index G n g') [0..<k]"
    by (simp add: i0 stream_index_Suc g' comp_def)
  finally have m: "map (stream_index G n g) [0..<Suc k] = x mod n # map (stream_index G n g') [0..<k]" .
  have s: "stream_state G n g (Suc k) = stream_state G n g' k" by (simp add: stream_state_Suc g')
  show ?case by (simp only: draw.simps nb Suc.IH[of g'] m s prod.case)
qed

lemma choice_stream:
  "choice G g vals =
     (map (\<lambda>j. vals ! stream_index G (length vals) g j) [0..<length vals],
      stream_state G (length vals) g (length vals))"
proof (cases "vals = []")
  case True
  then show ?thesis by (simp add: choice_def stream_state_def)
next
  case False
  then show ?thesis by (simp add: choice_def draw_stream comp_def)
qed

lemma boot_loop_stream:
  "boot_loop G g vals k =
     map (\<lambda>b. np_mean (map (\<lambda>j. vals ! stream_index G (length vals) g (b * length vals + j))
                              [0..<length vals])) [0..<k]"
proof (induction k arbitrary: g)
  case 0
  then show ?case by simp
next
  case (Suc k)
  let ?n = "length vals"
  let ?g' = "stream_state G ?n g ?n"
  let ?f = "\<lambda>g b. np_mean (map (\<lambda>j. vals ! stream_index G ?n g (b * ?n + j)) [0..<?n])"
  have shift: "?f ?g' b = ?f g (Suc b)" for b
    by (simp add: stream_index_add add.assoc)
  have "boot_loop G g vals (Suc k) = ?f g 0 # boot_loop G ?g' vals k"
    by (simp add: choice_stream)
  also have "boot_loop G ?g' vals k = map (?f ?g') [0..<k]" by (rule Suc.IH)
  also have "map (?f ?g') [0..<k] = map (?f g) (map Suc [0..<k])"
    by (simp only: map_map comp_def shift)
  also have "?f g 0 # map (?f g) (map Suc [0..<k]) = map (?f g) [0..<Suc k]"
    by (simp only: map_Suc_upt upt_conv_Cons[OF zero_less_Suc] list.map)
  finally show ?case .
qed

lemma bootstrap_ci_eq_spec:
  "bootstrap_ci G w vals n_boot alpha seed = (bootstrap_ci_spec G vals n_boot alpha seed, w)"
proof (cases "seed < 0")
  case True
  then show ?thesis
    by (simp add: bootstrap_ci_def bootstrap_ci_spec_def np_random_default_rng_def)
next
  case False
  have b: "boot_loop G (default_rng G (nat seed)) vals (nat n_boot)
         = seeded_boots G (nat seed) vals (nat n_boot)"
    by (simp only: boot_loop_stream seeded_boots_def resample_def)
  show ?thesis
    using False
    by (simp add: bootstrap_ci_def bootstrap_ci_spec_def np_random_default_rng_def Let_def b
        percentile_interval_def split: sum.splits)
qed


lemma np_percentile_boots:
  assumes ne: "boots \<noteq> []" and ok: "\<forall>b\<in>set boots. \<exists>m. b = Inr m \<and> (K \<longrightarrow> m = c)"
    and q: "0 \<le> q" "q \<le> 100"
  shows "np_percentile boots q = Inr (linear_quantile (sort (map projr boots)) (q / 100)) \<and>
         (K \<longrightarrow> linear_quantile (sort (map projr boots)) (q / 100) = c)"
proof -
  have "\<not> list_ex isl boots" using ok by (auto simp: list_ex_iff)
  then have e: "np_percentile boots q = Inr (linear_quantile (sort (map projr boots)) (q / 100))"
    using ne q by (simp add: np_percentile_def)
  have "linear_quantile (sort (map projr boots)) (q / 100) = c" if K
  proof (rule linear_quantile_const)
    show "sort (map projr boots) \<noteq> []" using ne by (metis length_sort length_map length_0_conv)
    show "\<forall>v\<in>set (sort (map projr boots)). v = c" using ok that by force
    show "0 \<le> q / 100" "q / 100 \<le> 1" using q by simp_all
  qed
  with e show ?thesis by simp
qed

lemma bootstrap_ci_result:
  assumes ne: "vals \<noteq> []" and nb: "0 < n_boot" and al: "0 \<le> alpha" "alpha \<le> 1"
    and sd: "0 \<le> seed"
  shows "\<exists>lo hi. fst (bootstrap_ci G w vals n_boot alpha seed) = Inr (lo, hi) \<and> lo \<le> hi \<and>
           ((\<forall>v\<in>set vals. v = c) \<longrightarrow> lo = c \<and> hi = c)"
proof -
  let ?boots = "boot_loop G (default_rng G (nat seed)) vals (nat n_boot)"
  let ?a = "sort (map projr ?boots)"
  let ?K = "\<forall>v\<in>set vals. v = c"
  from boot_loop_props[OF ne, of G "default_rng G (nat seed)" "nat n_boot" c]
  have l: "length ?boots = nat n_boot"
    and ok: "\<forall>b\<in>set ?boots. \<exists>m. b = Inr m \<and> (?K \<longrightarrow> m = c)" by auto
  have bne: "?boots \<noteq> []" using l nb by auto
  have ql: "0 \<le> 100 * (alpha / 2)" "100 * (alpha / 2) \<le> 100" using al by simp_all
  have qh: "0 \<le> 100 * (1 - alpha / 2)" "100 * (1 - alpha / 2) \<le> 100" using al by simp_all
  note pl = np_percentile_boots[OF bne ok ql]
  note ph = np_percentile_boots[OF bne ok qh]
  have ane: "?a \<noteq> []" using bne by (metis length_sort length_map length_0_conv)
  have mono: "linear_quantile ?a (100 * (alpha / 2) / 100) \<le> linear_quantile ?a (100 * (1 - alpha / 2) / 100)"
    by (rule linear_quantile_mono[OF sorted_sort ane]) (use al in simp_all)
  have r: "fst (bootstrap_ci G w vals n_boot alpha seed)
      = Inr (linear_quantile ?a (100 * (alpha / 2) / 100), linear_quantile ?a (100 * (1 - alpha / 2) / 100))"
    using sd pl ph by (simp add: bootstrap_ci_def np_random_default_rng_def Let_def)
  show ?thesis using r mono pl ph by blast
qed

text \<open>
  C4, amended. For every non-empty sequence of values, every \<open>n_boot \<ge> 1\<close>, every
  \<open>alpha\<close> in \<open>[0, 1]\<close> and every seed \<open>\<ge> 0\<close>, whatever the generator draws,
  \<^verbatim>\<open>bootstrap_ci\<close> returns \<open>(lo, hi)\<close> with \<open>lo \<le> hi\<close>; for a constant sequence the two
  bounds are equal, and for a single value both are that value.
\<close>

theorem bootstrap_ci_ordered:
  assumes ne: "vals \<noteq> []" and nb: "0 < n_boot" and al: "0 \<le> alpha" "alpha \<le> 1"
    and sd: "0 \<le> seed"
  shows "\<exists>lo hi. fst (bootstrap_ci G w vals n_boot alpha seed) = Inr (lo, hi) \<and> lo \<le> hi \<and>
           ((\<exists>c. \<forall>v\<in>set vals. v = c) \<longrightarrow> lo = hi) \<and>
           (\<forall>x. vals = [x] \<longrightarrow> lo = x \<and> hi = x)"
proof -
  from bootstrap_ci_result[OF ne nb al sd, of G w 0] obtain lo hi where
    r: "fst (bootstrap_ci G w vals n_boot alpha seed) = Inr (lo, hi)" "lo \<le> hi" by blast
  have "lo = c \<and> hi = c" if "\<forall>v\<in>set vals. v = c" for c
  proof -
    from bootstrap_ci_result[OF ne nb al sd, of G w c] r(1) that show ?thesis by auto
  qed
  then have k: "(\<exists>c. \<forall>v\<in>set vals. v = c) \<longrightarrow> lo = hi"
    and x: "\<forall>x. vals = [x] \<longrightarrow> lo = x \<and> hi = x" by auto
  show ?thesis using r k x by blast
qed

theorem bootstrap_ci_ordered_witness:
  "[1/4, 1/4, 1/4 :: real] \<noteq> [] \<and> (0::int) < 3 \<and> (0::real) \<le> 1/20 \<and> (1/20 :: real) \<le> 1 \<and> (0::int) \<le> 42 \<and>
   (\<exists>lo hi. fst (bootstrap_ci counting_generator counting_world [1/4, 1/4, 1/4] 3 (1/20) 42) = Inr (lo, hi) \<and>
            lo \<le> hi \<and> lo = hi)"
proof -
  have ne: "[1/4, 1/4, 1/4 :: real] \<noteq> []" by simp
  have nb: "(0::int) < 3" by simp
  have al: "(0::real) \<le> 1/20" "(1/20 :: real) \<le> 1" by simp_all
  have sd: "(0::int) \<le> 42" by simp
  have "\<forall>v\<in>set [1/4, 1/4, 1/4 :: real]. v = 1/4" by simp
  then have c: "\<exists>c. \<forall>v\<in>set [1/4, 1/4, 1/4 :: real]. v = c" by (rule exI)
  from bootstrap_ci_ordered[OF ne nb al sd, of counting_generator counting_world] c
  show ?thesis by auto
qed

text \<open>
  C4 as stated, for every \<open>alpha\<close>, \<open>n_boot\<close>, seed and sequence: with \<open>alpha = 2\<close> the
  lower bound is the largest and the upper bound the smallest resample mean; without
  resamples or without values the percentiles are NaN; a negative seed is rejected.
\<close>

theorem bootstrap_ci_counterexample:
  "fst (bootstrap_ci counting_generator counting_world [0, 1] 2 2 0) = Inr (1, 0) \<and>
   fst (bootstrap_ci counting_generator counting_world [0, 1] 0 (1/20) 42) = Inl NotANumber \<and>
   fst (bootstrap_ci counting_generator counting_world [] 2 (1/20) 42) = Inl NotANumber \<and>
   fst (bootstrap_ci counting_generator counting_world [0, 1] 2 (1/20) (- 1)) = Inl ValueError"
proof -
  have two: "nat 2 = Suc (Suc 0)" by simp
  have b: "boot_loop counting_generator 0 [0, 1] (Suc (Suc 0)) = [Inr 0, Inr 1]"
    by code_simp
  have s: "sort [0, 1 :: real] = [0, 1]" by simp
  have rng: "np_random_default_rng counting_generator w (Some 0) = (Inr 0, w)" for w
    by (simp add: np_random_default_rng_def counting_generator_def)
  have a: "fst (bootstrap_ci counting_generator counting_world [0, 1] 2 2 0) = Inr (1, 0)"
    unfolding bootstrap_ci_def Let_def two rng prod.case sum.case b
    by (simp add: np_percentile_def linear_quantile_def s)
  have rng42: "np_random_default_rng counting_generator w (Some 42) = (Inr 42, w)" for w
    by (simp add: np_random_default_rng_def counting_generator_def)
  have e: "boot_loop counting_generator g [] (Suc (Suc 0)) = [Inl NotANumber, Inl NotANumber]" for g
    by (simp add: choice_def np_mean_def)
  have c: "fst (bootstrap_ci counting_generator counting_world [] 2 (1/20) 42) = Inl NotANumber"
    unfolding bootstrap_ci_def Let_def two rng42 prod.case sum.case e by (simp add: np_percentile_def)
  have n: "fst (bootstrap_ci counting_generator counting_world [0, 1] 0 (1/20) 42) = Inl NotANumber"
    unfolding bootstrap_ci_def Let_def rng42 prod.case sum.case by (simp add: np_percentile_def)
  have v: "fst (bootstrap_ci counting_generator counting_world [0, 1] 2 (1/20) (- 1)) = Inl ValueError"
    by (simp add: bootstrap_ci_def np_random_default_rng_def)
  show ?thesis using a n c v by simp
qed

text \<open>
  The model can tell a seeded random source from an unseeded one: without a seed the
  generator is made from the entropy of the operating system, and differs from world to
  world.
\<close>

lemma unseeded_generator_reads_entropy:
  "np_random_default_rng G w None
     = (Inr (default_rng G (os_entropy w (entropy_used w))), w\<lparr>entropy_used := Suc (entropy_used w)\<rparr>)"
  by (simp add: np_random_default_rng_def)

text \<open>
  C5. \<^verbatim>\<open>bootstrap_ci\<close> is deterministic: its result is the interval that the
  specification computes from \<open>(values, n_boot, alpha, seed)\<close> alone, every index of every
  resample coming from the one stream of the generator made from the seed; so any two
  calls with the same arguments, in whatever worlds, return the same result, and the
  call takes nothing from the entropy of the world, which it leaves as it was.
\<close>

theorem bootstrap_ci_deterministic:
  "fst (bootstrap_ci G w vals n_boot alpha seed) = bootstrap_ci_spec G vals n_boot alpha seed \<and>
   fst (bootstrap_ci G w' vals n_boot alpha seed) = fst (bootstrap_ci G w vals n_boot alpha seed) \<and>
   snd (bootstrap_ci G w vals n_boot alpha seed) = w"
  by (simp add: bootstrap_ci_eq_spec)

theorem bootstrap_ci_deterministic_witness:
  "fst (bootstrap_ci counting_generator counting_world [0, 1] 2 (1/2) 0) = Inr (1/4, 3/4) \<and>
   fst (bootstrap_ci counting_generator (counting_world\<lparr>entropy_used := 7\<rparr>) [0, 1] 2 (1/2) 0)
     = Inr (1/4, 3/4) \<and>
   resample counting_generator 0 [0, 1] 0 = [0, 0] \<and>
   resample counting_generator 0 [0, 1] 1 = [1, 1]"
proof -
  have r0: "resample counting_generator 0 [0, 1] 0 = [0, 0]" by code_simp
  have r1: "resample counting_generator 0 [0, 1] 1 = [1, 1]" by code_simp
  have sb: "seeded_boots counting_generator (nat 0) [0, 1] (nat 2) = [Inr 0, Inr 1]"
    by code_simp
  have s: "sort [0, 1 :: real] = [0, 1]" by simp
  have v: "bootstrap_ci_spec counting_generator [0, 1] 2 (1/2) 0 = Inr (1/4, 3/4)"
    unfolding bootstrap_ci_spec_def sb
    by (simp add: percentile_interval_def np_percentile_def linear_quantile_def s)
  note t = bootstrap_ci_deterministic[of counting_generator _ "[0, 1]" 2 "1/2" 0]
  from t[of counting_world counting_world] v
  have a: "fst (bootstrap_ci counting_generator counting_world [0, 1] 2 (1/2) 0) = Inr (1/4, 3/4)"
    by simp
  from t[of "counting_world\<lparr>entropy_used := 7\<rparr>" counting_world] v
  have b: "fst (bootstrap_ci counting_generator (counting_world\<lparr>entropy_used := 7\<rparr>) [0, 1] 2 (1/2) 0)
     = Inr (1/4, 3/4)" by simp
  show ?thesis using a b r0 r1 by simp
qed

section \<open>The labels that evaluate predicts\<close>

lemma evaluate_returns:
  assumes sh: "has_shape P (length y_true) (length classes)" and cne: "classes \<noteq> []"
    and ne: "y_true \<noteq> []" and nn: "nonneg_entries P" and s1: "rows_sum_to_one P"
    and kn: "list_ex (\<lambda>t. t \<in> set classes) y_true"
  shows "\<exists>res. evaluate y_true P classes = Inr res"
proof -
  let ?labels = "map (\<lambda>r. classes ! row_argmax r) (rows P)"
  have n: "length (rows P) = length y_true" using sh by (simp add: has_shape_def)
  have p: "predicted_labels P classes = Inr ?labels" by (rule predicted_labels_ok[OF sh cne])
  obtain rpt where r: "classification_report y_true ?labels = Inr rpt"
    using n ne by (simp add: classification_report_def Let_def)
  obtain cm where c: "confusion_matrix y_true ?labels classes = Inr cm"
    using n ne cne kn by (simp add: confusion_matrix_def Let_def)
  have bd: "\<forall>r<length y_true. \<forall>j<length classes. 0 \<le> rows P ! r ! j \<and> rows P ! r ! j \<le> 1"
    using prob_entry_bounds[OF sh nn s1] by blast
  have b: "multiclass_brier y_true P classes = Inr (brier_spec y_true P classes)"
    by (rule multiclass_brier_eq_spec[OF sh ne cne bd])
  have e: "expected_calibration_error y_true P classes 15 = Inr (ece_spec y_true P classes (nat 15))"
    by (rule expected_calibration_error_eq_spec[OF sh cne]) simp
  show ?thesis by (simp add: evaluate_def p r c b e)
qed

lemma evaluate_uses_labels:
  assumes p: "predicted_labels P classes = Inr labels" and ev: "evaluate y_true P classes = Inr res"
  shows "classification_report y_true labels = Inr (report res) \<and>
         confusion_matrix y_true labels classes = Inr (confusion res)"
  using ev by (auto simp: evaluate_def p split: sum.splits)

lemma expected_calibration_error_loop:
  assumes sh: "has_shape P (length y_true) (length classes)" and cne: "classes \<noteq> []"
    and b: "0 \<le> bins"
  shows "expected_calibration_error y_true P classes bins
         = Inr (ece_loop (map row_max (rows P))
                  (map2 (\<lambda>l t. l = t) (map (\<lambda>r. classes ! row_argmax r) (rows P)) y_true)
                  (linspace01 (nat (bins + 1))) [0..<nat bins] 0)"
proof -
  have n: "length (rows P) = length y_true" using sh by (simp add: has_shape_def)
  have k: "ncols P \<noteq> 0" using sh cne by (simp add: has_shape_def)
  have a: "amax_axis1 P = Inr (map row_max (rows P))" using k by (simp add: amax_axis1_def)
  note p = predicted_labels_ok[OF sh cne]
  show ?thesis
    unfolding expected_calibration_error_def using b n
    by (simp add: a p elementwise_eq_def)
qed

text \<open>
  C9. For a probability matrix of the shape of the labels and the class list (at least
  one class), the label that \<^verbatim>\<open>evaluate\<close> predicts for a row is the class at the argmax
  of the row, the first index that holds the maximum of the row, so that a tie goes to
  the lowest class index: the report and the confusion matrix of every result of
  \<^verbatim>\<open>evaluate\<close> are those of these labels, \<^verbatim>\<open>evaluate\<close> does return a result for
  non-empty labels of which one is a class and a matrix of probabilities, and
  \<^verbatim>\<open>expected_calibration_error\<close> is the loop over the bins run on the indicator that
  compares these labels with the true ones.
\<close>

theorem predicted_label_is_first_argmax:
  assumes sh: "has_shape P (length y_true) (length classes)" and cne: "classes \<noteq> []"
    and b: "0 \<le> bins"
  shows "\<exists>labels.
           labels = map (\<lambda>r. classes ! row_argmax r) (rows P) \<and>
           (\<forall>r<length y_true.
              row_argmax (rows P ! r) < length classes \<and>
              rows P ! r ! row_argmax (rows P ! r) = Max (set (rows P ! r)) \<and>
              (\<forall>j < row_argmax (rows P ! r). rows P ! r ! j < Max (set (rows P ! r)))) \<and>
           (\<forall>res. evaluate y_true P classes = Inr res \<longrightarrow>
              classification_report y_true labels = Inr (report res) \<and>
              confusion_matrix y_true labels classes = Inr (confusion res)) \<and>
           (y_true \<noteq> [] \<and> nonneg_entries P \<and> rows_sum_to_one P \<and>
            list_ex (\<lambda>t. t \<in> set classes) y_true \<longrightarrow>
              (\<exists>res. evaluate y_true P classes = Inr res)) \<and>
           expected_calibration_error y_true P classes bins
             = Inr (ece_loop (map row_max (rows P)) (map2 (\<lambda>l t. l = t) labels y_true)
                      (linspace01 (nat (bins + 1))) [0..<nat bins] 0)"
proof -
  let ?labels = "map (\<lambda>r. classes ! row_argmax r) (rows P)"
  have p: "predicted_labels P classes = Inr ?labels" by (rule predicted_labels_ok[OF sh cne])
  have am: "row_argmax (rows P ! r) < length classes \<and>
            rows P ! r ! row_argmax (rows P ! r) = Max (set (rows P ! r)) \<and>
            (\<forall>j < row_argmax (rows P ! r). rows P ! r ! j < Max (set (rows P ! r)))"
    if r: "r < length y_true" for r
  proof -
    have len: "length (rows P ! r) = length classes" by (rule has_shape_row[OF sh r])
    with cne have ne: "rows P ! r \<noteq> []" by auto
    from row_argmax_spec[OF ne] row_max_eq_Max[OF ne] len show ?thesis by simp
  qed
  have ev: "classification_report y_true ?labels = Inr (report res) \<and>
            confusion_matrix y_true ?labels classes = Inr (confusion res)"
    if "evaluate y_true P classes = Inr res" for res
    by (rule evaluate_uses_labels[OF p that])
  have tot: "\<exists>res. evaluate y_true P classes = Inr res"
    if "y_true \<noteq> [] \<and> nonneg_entries P \<and> rows_sum_to_one P \<and> list_ex (\<lambda>t. t \<in> set classes) y_true"
    using evaluate_returns[OF sh cne] that by blast
  note ec = expected_calibration_error_loop[OF sh cne b]
  show ?thesis
  proof (intro exI[of _ ?labels] conjI)
    show "?labels = ?labels" by (rule refl)
    show "\<forall>r<length y_true.
              row_argmax (rows P ! r) < length classes \<and>
              rows P ! r ! row_argmax (rows P ! r) = Max (set (rows P ! r)) \<and>
              (\<forall>j < row_argmax (rows P ! r). rows P ! r ! j < Max (set (rows P ! r)))"
      using am by blast
    show "\<forall>res. evaluate y_true P classes = Inr res \<longrightarrow>
              classification_report y_true ?labels = Inr (report res) \<and>
              confusion_matrix y_true ?labels classes = Inr (confusion res)"
      using ev by blast
    show "y_true \<noteq> [] \<and> nonneg_entries P \<and> rows_sum_to_one P \<and>
            list_ex (\<lambda>t. t \<in> set classes) y_true \<longrightarrow>
              (\<exists>res. evaluate y_true P classes = Inr res)"
      using tot by blast
    show "expected_calibration_error y_true P classes bins
             = Inr (ece_loop (map row_max (rows P)) (map2 (\<lambda>l t. l = t) ?labels y_true)
                      (linspace01 (nat (bins + 1))) [0..<nat bins] 0)"
      by (rule ec)
  qed
qed

theorem predicted_label_is_first_argmax_witness:
  "has_shape \<lparr>ncols = 3, rows = [[1/4, 1/2, 1/4], [2/5, 1/5, 2/5]]\<rparr>
      (length [''b'', ''c'']) (length [''a'', ''b'', ''c'']) \<and>
   [''a'', ''b'', ''c''] \<noteq> [] \<and> (0::int) \<le> 15 \<and>
   (\<exists>res. evaluate [''b'', ''c''] \<lparr>ncols = 3, rows = [[1/4, 1/2, 1/4], [2/5, 1/5, 2/5]]\<rparr>
             [''a'', ''b'', ''c''] = Inr res \<and>
          confusion res = [[0, 0, 0], [0, 1, 0], [1, 0, 0]]) \<and>
   expected_calibration_error [''b'', ''c''] \<lparr>ncols = 3, rows = [[1/4, 1/2, 1/4], [2/5, 1/5, 2/5]]\<rparr>
             [''a'', ''b'', ''c''] 15 = Inr (9/20)"
proof -
  let ?P = "\<lparr>ncols = 3, rows = [[1/4, 1/2, 1/4], [2/5, 1/5, 2/5 :: real]]\<rparr>"
  let ?y = "[''b'', ''c'']"
  let ?cs = "[''a'', ''b'', ''c'']"
  have sh: "has_shape ?P (length ?y) (length ?cs)" by (simp add: has_shape_def is_ndarray_def)
  have cne: "?cs \<noteq> []" by simp
  have b: "(0::int) \<le> 15" by simp
  have pre: "?y \<noteq> [] \<and> nonneg_entries ?P \<and> rows_sum_to_one ?P \<and> list_ex (\<lambda>t. t \<in> set ?cs) ?y"
    by (simp add: nonneg_entries_def rows_sum_to_one_def)
  have lb: "map (\<lambda>r. ?cs ! row_argmax r) (rows ?P) = [''b'', ''a'']" by simp
  have cm: "confusion_matrix ?y [''b'', ''a''] ?cs = Inr [[0, 0, 0], [0, 1, 0], [1, 0, 0]]"
    by (simp add: confusion_matrix_def Let_def label_to_ind_def upt_conv_Cons)
  have lp: "ece_loop (map row_max (rows ?P)) (map2 (\<lambda>l t. l = t) [''b'', ''a''] ?y)
              (linspace01 (nat (15 + 1))) [0..<nat 15] 0 = 9/20"
    by (simp add: linspace01_def ece_bin_def bin_mask_def select_def mean_bool_def mean_real_def
        Let_def upt_conv_Cons)
  from predicted_label_is_first_argmax[OF sh cne b] lb
  have ev: "\<forall>res. evaluate ?y ?P ?cs = Inr res \<longrightarrow>
              confusion_matrix ?y [''b'', ''a''] ?cs = Inr (confusion res)"
    and tot: "\<exists>res. evaluate ?y ?P ?cs = Inr res"
    and ec: "expected_calibration_error ?y ?P ?cs 15
             = Inr (ece_loop (map row_max (rows ?P)) (map2 (\<lambda>l t. l = t) [''b'', ''a''] ?y)
                      (linspace01 (nat (15 + 1))) [0..<nat 15] 0)"
    using pre by auto
  from tot obtain res where res: "evaluate ?y ?P ?cs = Inr res" by blast
  with ev cm have "confusion res = [[0, 0, 0], [0, 1, 0], [1, 0, 0]]" by simp
  with res have e1: "\<exists>res. evaluate ?y ?P ?cs = Inr res \<and> confusion res = [[0, 0, 0], [0, 1, 0], [1, 0, 0]]"
    by blast
  have e2: "expected_calibration_error ?y ?P ?cs 15 = Inr (9/20)" using ec lp by simp
  show ?thesis by (intro conjI sh cne b e1 e2)
qed

section \<open>The masks and weights of the loop over the bins\<close>

lemma ece_bin_shift:
  "ece_bin confidences correct bounds i e = e + ece_bin confidences correct bounds i 0"
  by (simp add: ece_bin_def Let_def)

lemma ece_loop_sum_list:
  "ece_loop confidences correct bounds js e
     = e + sum_list (map (\<lambda>i. ece_bin confidences correct bounds i 0) js)"
proof (induction js arbitrary: e)
  case Nil
  then show ?case by simp
next
  case (Cons i js)
  show ?case
    using Cons.IH[of "ece_bin confidences correct bounds i e"]
          ece_bin_shift[of confidences correct bounds i e]
    by simp
qed

lemma ece_loop_nonempty_bins:
  "ece_loop confidences correct bounds [0..<B] 0
     = (\<Sum>i\<in>{i. i < B \<and> list_ex id (bin_mask (bounds ! i) (bounds ! (i + 1)) confidences)}.
          mean_bool (bin_mask (bounds ! i) (bounds ! (i + 1)) confidences) *
          \<bar>mean_bool (select correct (bin_mask (bounds ! i) (bounds ! (i + 1)) confidences))
            - mean_real (select confidences (bin_mask (bounds ! i) (bounds ! (i + 1)) confidences))\<bar>)"
proof -
  let ?m = "\<lambda>i. bin_mask (bounds ! i) (bounds ! (i + 1)) confidences"
  let ?t = "\<lambda>i. mean_bool (?m i) * \<bar>mean_bool (select correct (?m i)) - mean_real (select confidences (?m i))\<bar>"
  have eb: "ece_bin confidences correct bounds i 0 = (if list_ex id (?m i) then ?t i else 0)" for i
    by (simp add: ece_bin_def Let_def)
  have "ece_loop confidences correct bounds [0..<B] 0
      = sum_list (map (\<lambda>i. if list_ex id (?m i) then ?t i else 0) [0..<B])"
    by (simp add: ece_loop_sum_list eb)
  also have "\<dots> = (\<Sum>i\<in>{..<B}. if list_ex id (?m i) then ?t i else 0)"
    by (simp only: interv_sum_list_conv_sum_set_nat set_upt lessThan_atLeast0)
  also have "\<dots> = (\<Sum>i\<in>{i \<in> {..<B}. list_ex id (?m i)}. ?t i)"
    by (rule sum.inter_filter[symmetric]) simp
  also have "{i \<in> {..<B}. list_ex id (?m i)} = {i. i < B \<and> list_ex id (?m i)}" by auto
  finally show ?thesis .
qed

lemma loop_mask_members:
  assumes B: "0 < B" and i: "i < B"
  shows "bin_mask (linspace01 (Suc B) ! i) (linspace01 (Suc B) ! (i + 1)) (map row_max (rows P))
         = bin_mask (real i / real B) (real (i + 1) / real B) (map row_max (rows P))"
  using linspace01_nth[OF B, of i] linspace01_nth[OF B, of "i + 1"] i by simp

lemma loop_mask_nth:
  assumes B: "0 < B" and i: "i < B" and r: "r < length (rows P)"
  shows "bin_mask (linspace01 (Suc B) ! i) (linspace01 (Suc B) ! (i + 1)) (map row_max (rows P)) ! r
         \<longleftrightarrow> r \<in> bin_members P B i"
proof -
  have "bin_mask (real i / real B) (real (i + 1) / real B) (map row_max (rows P)) ! r
        \<longleftrightarrow> r \<in> bin_members P B i"
    using r by (simp add: bin_mask_def bin_members_def confidence_def)
  then show ?thesis by (simp only: loop_mask_members[OF B i])
qed

lemma loop_mask_nonempty:
  assumes B: "0 < B" and i: "i < B"
  shows "list_ex id (bin_mask (linspace01 (Suc B) ! i) (linspace01 (Suc B) ! (i + 1)) (map row_max (rows P)))
         \<longleftrightarrow> bin_members P B i \<noteq> {}"
  by (simp only: loop_mask_members[OF B i] list_ex_mask bin_mask_members[OF refl])

lemma loop_mask_weight:
  assumes B: "0 < B" and i: "i < B"
  shows "mean_bool (bin_mask (linspace01 (Suc B) ! i) (linspace01 (Suc B) ! (i + 1)) (map row_max (rows P)))
         = real (card (bin_members P B i)) / real (length (rows P))"
proof -
  let ?msk = "bin_mask (real i / real B) (real (i + 1) / real B) (map row_max (rows P))"
  have lm: "length ?msk = length (rows P)" by (simp add: bin_mask_def)
  have "mean_bool ?msk = real (card (bin_members P B i)) / real (length ?msk)"
    unfolding mean_bool_def by (simp only: count_true_mask bin_mask_members[OF refl])
  then show ?thesis by (simp only: loop_mask_members[OF B i] lm)
qed


text \<open>
  C10, amended. For a probability matrix of the shape of the labels and the class list
  with at least one class, non-negative entries and rows that sum to 1, at least one
  sample and at least one bin: every confidence that \<^verbatim>\<open>expected_calibration_error\<close>
  computes is at least \<open>1/K\<close>, so positive; for every sample exactly one of the \<open>B\<close>
  masks of the loop is true, so no sample is dropped; the weights \<^verbatim>\<open>mask.mean()\<close> of
  the bins with a non-empty mask sum to exactly 1; and the value returned is the sum over
  these bins of the weight times the gap between mean correctness and mean confidence.
\<close>

theorem no_sample_dropped:
  assumes sh: "has_shape P (length y_true) (length classes)" and cne: "classes \<noteq> []"
    and nn: "nonneg_entries P" and s1: "rows_sum_to_one P"
    and b: "0 < bins" and ne: "y_true \<noteq> []"
  shows "\<exists>confs labels msk.
           amax_axis1 P = Inr confs \<and> predicted_labels P classes = Inr labels \<and>
           msk = (\<lambda>i. bin_mask (linspace01 (nat (bins + 1)) ! i)
                                (linspace01 (nat (bins + 1)) ! (i + 1)) confs) \<and>
           (\<forall>r<length y_true. 1 / real (length classes) \<le> confs ! r \<and> 0 < confs ! r \<and>
                                (\<exists>!i. i < nat bins \<and> msk i ! r)) \<and>
           (\<Sum>i\<in>{i. i < nat bins \<and> list_ex id (msk i)}. mean_bool (msk i)) = 1 \<and>
           expected_calibration_error y_true P classes bins
             = Inr (\<Sum>i\<in>{i. i < nat bins \<and> list_ex id (msk i)}.
                      mean_bool (msk i) *
                      \<bar>mean_bool (select (map2 (\<lambda>l t. l = t) labels y_true) (msk i))
                        - mean_real (select confs (msk i))\<bar>)"
proof -
  let ?B = "nat bins"
  let ?confs = "map row_max (rows P)"
  let ?labels = "map (\<lambda>r. classes ! row_argmax r) (rows P)"
  let ?msk = "\<lambda>i. bin_mask (linspace01 (nat (bins + 1)) ! i)
                            (linspace01 (nat (bins + 1)) ! (i + 1)) ?confs"
  have k: "0 < length classes" using cne by simp
  have B: "0 < ?B" using b by simp
  have SB: "nat (bins + 1) = Suc ?B" using b by simp
  have n: "length (rows P) = length y_true" using sh by (simp add: has_shape_def)
  have n0: "0 < length y_true" using ne by simp
  have kc: "ncols P \<noteq> 0" using sh cne by (simp add: has_shape_def)
  have a: "amax_axis1 P = Inr ?confs" using kc by (simp add: amax_axis1_def)
  have p: "predicted_labels P classes = Inr ?labels" by (rule predicted_labels_ok[OF sh cne])
  have mem: "?msk i ! r \<longleftrightarrow> r \<in> bin_members P ?B i" if "i < ?B" "r < length y_true" for i r
    unfolding SB using loop_mask_nth[OF B that(1), of r P] that(2) n by simp
  have one: "1 / real (length classes) \<le> ?confs ! r \<and> 0 < ?confs ! r \<and>
             (\<exists>!i. i < ?B \<and> ?msk i ! r)" if r: "r < length y_true" for r
  proof -
    have c: "?confs ! r = confidence P r" using r n by (simp add: confidence_def)
    have eq: "(i < ?B \<and> ?msk i ! r) \<longleftrightarrow> (i < ?B \<and> r \<in> bin_members P ?B i)" for i
      using mem[of i r] r by blast
    have u: "\<exists>!i. i < ?B \<and> ?msk i ! r"
      using bin_unique[OF sh nn s1 r k B] by (simp only: eq)
    from confidence_bounds[OF sh nn s1 r k] c u show ?thesis by simp
  qed
  have ne_iff: "list_ex id (?msk i) \<longleftrightarrow> bin_members P ?B i \<noteq> {}" if "i < ?B" for i
    unfolding SB by (rule loop_mask_nonempty[OF B that])
  have wt: "mean_bool (?msk i) = real (card (bin_members P ?B i)) / real (length y_true)"
    if "i < ?B" for i
    unfolding SB using loop_mask_weight[OF B that, of P] n by simp
  have idx: "{i. i < ?B \<and> list_ex id (?msk i)} = {i. i < ?B \<and> bin_members P ?B i \<noteq> {}}"
    using ne_iff by blast
  have "(\<Sum>i\<in>{i. i < ?B \<and> list_ex id (?msk i)}. mean_bool (?msk i))
      = (\<Sum>i\<in>{i. i < ?B \<and> bin_members P ?B i \<noteq> {}}.
           real (card (bin_members P ?B i)) / real (length y_true))"
    unfolding idx by (rule sum.cong) (use wt in auto)
  also have "\<dots> = 1" by (rule bin_weights_sum[OF sh nn s1 k B n0])
  finally have w: "(\<Sum>i\<in>{i. i < ?B \<and> list_ex id (?msk i)}. mean_bool (?msk i)) = 1" .
  have b0: "0 \<le> bins" using b by simp
  have e: "expected_calibration_error y_true P classes bins
             = Inr (\<Sum>i\<in>{i. i < ?B \<and> list_ex id (?msk i)}.
                      mean_bool (?msk i) *
                      \<bar>mean_bool (select (map2 (\<lambda>l t. l = t) ?labels y_true) (?msk i))
                        - mean_real (select ?confs (?msk i))\<bar>)"
    by (simp only: expected_calibration_error_loop[OF sh cne b0] ece_loop_nonempty_bins)
  show ?thesis
    by (intro exI[of _ ?confs] exI[of _ ?labels] exI[of _ ?msk] conjI a p refl w e)
       (use one in blast)
qed

theorem no_sample_dropped_witness:
  "has_shape \<lparr>ncols = 2, rows = [[9/10, 1/10], [1/2, 1/2]]\<rparr> (length [''A'', ''B'']) (length [''A'', ''B'']) \<and>
   [''A'', ''B''] \<noteq> [] \<and>
   nonneg_entries \<lparr>ncols = 2, rows = [[9/10, 1/10], [1/2, 1/2]]\<rparr> \<and>
   rows_sum_to_one \<lparr>ncols = 2, rows = [[9/10, 1/10], [1/2, 1/2]]\<rparr> \<and> (0::int) < 15 \<and>
   (\<Sum>i\<in>{i. i < nat 15 \<and>
              list_ex id (bin_mask (linspace01 (nat (15 + 1)) ! i) (linspace01 (nat (15 + 1)) ! (i + 1))
                            [9/10, 1/2])}.
       mean_bool (bin_mask (linspace01 (nat (15 + 1)) ! i) (linspace01 (nat (15 + 1)) ! (i + 1))
                    [9/10, 1/2])) = 1"
proof -
  let ?P = "\<lparr>ncols = 2, rows = [[9/10, 1/10], [1/2, 1/2 :: real]]\<rparr>"
  let ?y = "[''A'', ''B'']"
  have sh: "has_shape ?P (length ?y) (length ?y)" by (simp add: has_shape_def is_ndarray_def)
  have cne: "?y \<noteq> []" by simp
  have nn: "nonneg_entries ?P" by (simp add: nonneg_entries_def)
  have s1: "rows_sum_to_one ?P" by (simp add: rows_sum_to_one_def)
  have b: "(0::int) < 15" by simp
  have a: "amax_axis1 ?P = Inr [9/10, 1/2]" by (simp add: amax_axis1_def)
  from no_sample_dropped[OF sh cne nn s1 b cne] obtain confs labels msk where
    c: "amax_axis1 ?P = Inr confs"
    and m: "msk = (\<lambda>i. bin_mask (linspace01 (nat (15 + 1)) ! i) (linspace01 (nat (15 + 1)) ! (i + 1)) confs)"
    and w: "(\<Sum>i\<in>{i. i < nat 15 \<and> list_ex id (msk i)}. mean_bool (msk i)) = 1"
    by blast
  from a c have "confs = [9/10, 1/2]" by simp
  with m w have u: "(\<Sum>i\<in>{i. i < nat 15 \<and>
              list_ex id (bin_mask (linspace01 (nat (15 + 1)) ! i) (linspace01 (nat (15 + 1)) ! (i + 1))
                            [9/10, 1/2])}.
       mean_bool (bin_mask (linspace01 (nat (15 + 1)) ! i) (linspace01 (nat (15 + 1)) ! (i + 1))
                    [9/10, 1/2])) = 1" by simp
  show ?thesis by (intro conjI sh cne nn s1 b u)
qed

text \<open>
  C10 as stated fails without samples, where no mask is non-empty and the weights sum
  to 0, and without bins, where the loop does not run: the one sample, wrong with
  confidence 1, is in no mask and the value returned is 0.
\<close>

theorem no_sample_dropped_counterexample:
  "has_shape \<lparr>ncols = 1, rows = []\<rparr> (length ([] :: string list)) (length [''A'']) \<and>
   nonneg_entries \<lparr>ncols = 1, rows = []\<rparr> \<and> rows_sum_to_one \<lparr>ncols = 1, rows = []\<rparr> \<and>
   amax_axis1 \<lparr>ncols = 1, rows = []\<rparr> = Inr [] \<and>
   (\<Sum>i\<in>{i. i < nat 15 \<and>
              list_ex id (bin_mask (linspace01 (nat (15 + 1)) ! i) (linspace01 (nat (15 + 1)) ! (i + 1)) [])}.
       mean_bool (bin_mask (linspace01 (nat (15 + 1)) ! i) (linspace01 (nat (15 + 1)) ! (i + 1)) [])) \<noteq> 1 \<and>
   has_shape \<lparr>ncols = 1, rows = [[1]]\<rparr> (length [''B'']) (length [''A'']) \<and>
   nonneg_entries \<lparr>ncols = 1, rows = [[1]]\<rparr> \<and> rows_sum_to_one \<lparr>ncols = 1, rows = [[1]]\<rparr> \<and>
   amax_axis1 \<lparr>ncols = 1, rows = [[1]]\<rparr> = Inr [1] \<and>
   expected_calibration_error [''B''] \<lparr>ncols = 1, rows = [[1]]\<rparr> [''A''] 0 = Inr 0 \<and>
   \<not> (\<exists>i<nat 0. bin_mask (linspace01 (nat (0 + 1)) ! i) (linspace01 (nat (0 + 1)) ! (i + 1)) [1] ! 0)"
  by (simp add: has_shape_def is_ndarray_def nonneg_entries_def rows_sum_to_one_def
      bin_mask_def expected_calibration_error_def amax_axis1_def predicted_labels_def
      argmax_axis1_def take_indices_def elementwise_eq_def linspace01_def)

end
